theory Spec2Isabelle
  imports Complex_Main "HOL-Library.Multiset" "HOL-Library.AList"
begin

section \<open>Characters and strings\<close>

text \<open>
  The program is the Python module \<^verbatim>\<open>csv2Redshift\<close>. The keys of stored objects, the
  names of tables and the labels of columns that pass through a run are modelled by
  \<^typ>\<open>string\<close>, one \<^typ>\<open>char\<close> for each character, so that \<^const>\<open>length\<close> is Python's
  \<^verbatim>\<open>len\<close>; on them the character classes \<^verbatim>\<open>isalnum\<close>, \<^verbatim>\<open>isdigit\<close> and the case mapping
  \<^verbatim>\<open>lower\<close> are those of Python on the ASCII range: letters are \<^verbatim>\<open>A-Z\<close> and \<^verbatim>\<open>a-z\<close>,
  digits are \<^verbatim>\<open>0-9\<close>, and every other character is left alone by \<^verbatim>\<open>lower\<close> and is not
  alphanumeric. The sanitisation of names itself is modelled for every Python string,
  over the tables of Python's string methods (see below).
\<close>

definition digits :: string where
  "digits = ''0123456789''"

definition ascii_uppercase :: string where
  "ascii_uppercase = ''ABCDEFGHIJKLMNOPQRSTUVWXYZ''"

definition ascii_lowercase :: string where
  "ascii_lowercase = ''abcdefghijklmnopqrstuvwxyz''"

definition isdigit :: "char \<Rightarrow> bool" where
  "isdigit c = (c \<in> set digits)"

definition isupper :: "char \<Rightarrow> bool" where
  "isupper c = (c \<in> set ascii_uppercase)"

definition islower :: "char \<Rightarrow> bool" where
  "islower c = (c \<in> set ascii_lowercase)"

definition isalnum :: "char \<Rightarrow> bool" where
  "isalnum c = (isdigit c \<or> isupper c \<or> islower c)"

definition lower_char :: "char \<Rightarrow> char" where
  "lower_char c =
     (case map_of (zip ascii_uppercase ascii_lowercase) c of Some d \<Rightarrow> d | None \<Rightarrow> c)"

definition lower :: "string \<Rightarrow> string" where
  "lower s = map lower_char s"

definition endswith :: "string \<Rightarrow> string \<Rightarrow> bool" where
  "endswith s suffix = (length suffix \<le> length s \<and> drop (length s - length suffix) s = suffix)"

text \<open>\<^verbatim>\<open>str(n)\<close> for a non-negative integer: its decimal digits.\<close>

function str_nat :: "nat \<Rightarrow> string" where
  "str_nat n = (if n < 10 then [digits ! n] else str_nat (n div 10) @ [digits ! (n mod 10)])"
  by pat_completeness auto
termination
  by (relation "measure id") auto

declare str_nat.simps [simp del]

section \<open>Column-name sanitisation: \<^verbatim>\<open>clean_column_name\<close>\<close>

text \<open>
  \<^verbatim>\<open>
  def clean_column_name(column: str) -> str:
      if not column:
          return "unnamed_column"
      cleaned = ''.join(c if c.isalnum() else '_' for c in str(column).lower())
      if cleaned[0].isdigit():
          cleaned = 'col_' + cleaned
      return cleaned
  \<close>
  A Python string is a list of characters of any type \<open>'c\<close> (Unicode code points). The
  methods \<^verbatim>\<open>str.isalnum\<close>, \<^verbatim>\<open>str.isdigit\<close> and \<^verbatim>\<open>str.lower\<close> are not code of the
  repository: their tables are parameters of the model. \<open>isalnum_of\<close> and \<open>isdigit_of\<close>
  are the two classes; \<open>lower_in_context before c after\<close> is the lower-case mapping of the
  character \<open>c\<close> standing between \<open>before\<close> and \<open>after\<close>, a string of one or more
  characters (Unicode maps some characters to several, and the capital sigma according
  to its place in the word); \<open>literal_of\<close> gives the character of an ASCII literal of
  the source. \<^verbatim>\<open>str.lower\<close> maps every character of the string in its context.
  \<^verbatim>\<open>cleaned[0]\<close> is read with \<^const>\<open>hd\<close>: Python's \<^verbatim>\<open>lower\<close> gives no empty string for a
  string that is not empty.
\<close>

record 'c str_methods =
  lower_in_context :: "'c list \<Rightarrow> 'c \<Rightarrow> 'c list \<Rightarrow> 'c list"
  isalnum_of :: "'c \<Rightarrow> bool"
  isdigit_of :: "'c \<Rightarrow> bool"
  literal_of :: "char \<Rightarrow> 'c"

fun lower_from :: "'c str_methods \<Rightarrow> 'c list \<Rightarrow> 'c list \<Rightarrow> 'c list" where
  "lower_from U before [] = []"
| "lower_from U before (c # after) =
     lower_in_context U before c after @ lower_from U (before @ [c]) after"

definition str_lower :: "'c str_methods \<Rightarrow> 'c list \<Rightarrow> 'c list" where
  "str_lower U s = lower_from U [] s"

definition clean_column_name :: "'c str_methods \<Rightarrow> 'c list \<Rightarrow> 'c list" where
  "clean_column_name U column =
     (if column = [] then map (literal_of U) ''unnamed_column''
      else let cleaned = map (\<lambda>c. if isalnum_of U c then c else literal_of U CHR ''_'')
                           (str_lower U column)
           in if isdigit_of U (hd cleaned) then map (literal_of U) ''col_'' @ cleaned else cleaned)"

text \<open>
  The methods on the ASCII range, for the names of the run: every character has the one
  lower-case form \<^const>\<open>lower_char\<close>, whatever its context.
\<close>

definition ascii_methods :: "char str_methods" where
  "ascii_methods =
     \<lparr>lower_in_context = (\<lambda>before c after. [lower_char c]),
      isalnum_of = isalnum,
      isdigit_of = isdigit,
      literal_of = (\<lambda>c. c)\<rparr>"

section \<open>Type inference: \<^verbatim>\<open>detect_data_type\<close>\<close>

text \<open>
  A \<^verbatim>\<open>pandas.Series\<close> carries one dtype for all its cells, so a column is modelled by one
  constructor for each dtype the function tells apart, holding cells of that dtype.
  A missing cell (\<^verbatim>\<open>NaN\<close>, \<^verbatim>\<open>NaT\<close>, \<^verbatim>\<open>None\<close>) is \<^const>\<open>None\<close>; the NumPy integer and
  boolean dtypes have no missing cells. A finite float is the rational number it denotes;
  a timestamp is its count of nanoseconds. The cells of an \<^verbatim>\<open>object\<close> column, as
  \<^verbatim>\<open>pandas.read_csv\<close> builds them, are Python strings, or booleans when a boolean column has
  missing cells. \<open>OtherS\<close> stands for a column of any other dtype (complex, timedelta,
  categorical, ...), and \<open>NotASeries\<close> for an argument that is no Series at all, on which
  the first method call raises.
\<close>

datatype pyobj = PyStr string | PyBool bool

datatype series =
    DatetimeS "int option list"
  | BoolS "bool list"
  | IntS "int list"
  | FloatS "rat option list"
  | ObjectS "pyobj option list"
  | OtherS "unit option list"
  | NotASeries

text \<open>
  The statuses of a Redshift Data API statement, and the exceptions of the program: those
  the source raises itself (\<open>QueryFailed\<close>, \<open>QueryTimedOut\<close>, \<open>NoDataLoaded\<close>,
  \<open>CouldNotVerify\<close>, each standing for its message), and those a library call raises.
\<close>

datatype status = SUBMITTED | PICKED | STARTED | FINISHED | FAILED | ABORTED

datatype exn =
    AttributeError
  | IndexError
  | KeyError
  | ResourceNotFoundException
  | QueryFailed status string
  | QueryTimedOut
  | NoDataLoaded string
  | CouldNotVerify
  | OtherException string

text \<open>\<^verbatim>\<open>len(values.dropna())\<close>: the number of cells that are not missing.\<close>

definition count_present :: "'a option list \<Rightarrow> nat" where
  "count_present cells = length (filter (\<lambda>c. c \<noteq> None) cells)"

fun dropna_len :: "series \<Rightarrow> exn + nat" where
  "dropna_len (DatetimeS cells) = Inr (count_present cells)"
| "dropna_len (BoolS cells) = Inr (length cells)"
| "dropna_len (IntS cells) = Inr (length cells)"
| "dropna_len (FloatS cells) = Inr (count_present cells)"
| "dropna_len (ObjectS cells) = Inr (count_present cells)"
| "dropna_len (OtherS cells) = Inr (count_present cells)"
| "dropna_len NotASeries = Inl AttributeError"

text \<open>The dtype tests of \<^verbatim>\<open>pandas.api.types\<close> (pandas 1.5.3, which the repository pins).\<close>

fun is_datetime64_any_dtype :: "series \<Rightarrow> bool" where
  "is_datetime64_any_dtype (DatetimeS _) = True"
| "is_datetime64_any_dtype _ = False"

fun is_bool_dtype :: "series \<Rightarrow> bool" where
  "is_bool_dtype (BoolS _) = True"
| "is_bool_dtype _ = False"

fun is_integer_dtype :: "series \<Rightarrow> bool" where
  "is_integer_dtype (IntS _) = True"
| "is_integer_dtype _ = False"

fun is_float_dtype :: "series \<Rightarrow> bool" where
  "is_float_dtype (FloatS _) = True"
| "is_float_dtype _ = False"

fun is_string_dtype :: "series \<Rightarrow> bool" where
  "is_string_dtype (ObjectS _) = True"
| "is_string_dtype _ = False"

text \<open>
  \<^verbatim>\<open>values.astype(str).str.len()\<close> on an \<^verbatim>\<open>object\<close> column: the length of \<^verbatim>\<open>str(cell)\<close>
  for every cell, a missing cell being rendered \<^verbatim>\<open>'nan'\<close>. The source takes it of
  \<^verbatim>\<open>values\<close>, not of \<^verbatim>\<open>non_null_values\<close>.
\<close>

fun str_len :: "pyobj option \<Rightarrow> nat" where
  "str_len None = 3"
| "str_len (Some (PyStr s)) = length s"
| "str_len (Some (PyBool True)) = 4"
| "str_len (Some (PyBool False)) = 5"

fun astype_str_len_max :: "series \<Rightarrow> nat" where
  "astype_str_len_max (ObjectS cells) = fold max (map str_len cells) 0"
| "astype_str_len_max _ = 0"

text \<open>
  The body of the \<^verbatim>\<open>try\<close> block, and the function with its
  \<^verbatim>\<open>except Exception: return 'VARCHAR(256)'\<close>.
\<close>

definition detect_data_type_body :: "series \<Rightarrow> exn + string" where
  "detect_data_type_body values =
     (case dropna_len values of
        Inl e \<Rightarrow> Inl e
      | Inr n \<Rightarrow>
          if n = 0 then Inr ''VARCHAR(256)''
          else if is_datetime64_any_dtype values then Inr ''TIMESTAMP''
          else if is_bool_dtype values then Inr ''BOOLEAN''
          else if is_integer_dtype values then Inr ''BIGINT''
          else if is_float_dtype values then Inr ''DECIMAL(18,2)''
          else if is_string_dtype values then
            (let max_length = astype_str_len_max values;
                 varchar_length = min (max (max_length * 2) 256) 65535
             in Inr (''VARCHAR('' @ str_nat varchar_length @ '')''))
          else Inr ''VARCHAR(256)'')"

definition detect_data_type :: "series \<Rightarrow> string" where
  "detect_data_type values =
     (case detect_data_type_body values of Inl e \<Rightarrow> ''VARCHAR(256)'' | Inr t \<Rightarrow> t)"

section \<open>Discovery: \<^verbatim>\<open>list_processed_files\<close> and \<^verbatim>\<open>wait_for_file_processing\<close>\<close>

text \<open>
  \<^verbatim>\<open>
  def list_processed_files(s3_client, bucket):
      try:
          response = s3_client.list_objects_v2(Bucket=bucket, Prefix='processed/')
          csv_files = [item['Key'] for item in response.get('Contents', [])
                      if item['Key'].lower().endswith('.csv')]
          return csv_files
      except Exception as e:
          return []
  \<close>
  The answer of \<^verbatim>\<open>list_objects_v2\<close> is an exception or the keys of its \<^verbatim>\<open>Contents\<close>
  (none when the entry is absent).
\<close>

definition list_processed_files :: "exn + string list \<Rightarrow> string list" where
  "list_processed_files response =
     (case response of
        Inl e \<Rightarrow> []
      | Inr contents \<Rightarrow> filter (\<lambda>key. endswith (lower key) ''.csv'') contents)"

text \<open>
  \<^verbatim>\<open>
  def wait_for_file_processing(s3_client, bucket, max_wait_time=300):
      previous_files = set()
      stable_count = 0
      start_time = time.time()
      while (time.time() - start_time) < max_wait_time:
          current_files = set(list_processed_files(s3_client, bucket))
          if current_files == previous_files:
              stable_count += 1
              if stable_count >= 12:
                  logger.info("File list has been stable for 60 seconds")
                  return list(current_files)
          else:
              stable_count = 0
              previous_files = current_files
          time.sleep(5)
      logger.warning(f"Reached maximum wait time of {max_wait_time} seconds")
      return list(previous_files)
  \<close>
  The environment of the loop is the sequence of polls: poll \<open>i\<close> is the answer of the
  store to the \<open>i\<close>-th listing and the time that listing took. The clock advances by
  that time and by the 5 units of \<^verbatim>\<open>time.sleep(5)\<close> in every iteration. A Python set is
  a list without duplicates, compared as a set; the order in which Python enumerates a
  set is not specified, and the model keeps the order of the listing. The result
  records, besides the returned list, which \<^verbatim>\<open>return\<close> was taken (each logs its own
  message) and how many listings were made.
\<close>

type_synonym polls = "nat \<Rightarrow> (exn + string list) \<times> nat"

datatype watch_exit = StableExit | MaxWaitExit

function wait_loop ::
  "polls \<Rightarrow> nat \<Rightarrow> nat \<Rightarrow> nat \<Rightarrow> string list \<Rightarrow> nat \<Rightarrow> watch_exit \<times> nat \<times> string list" where
  "wait_loop env max_wait_time i elapsed previous_files stable_count =
     (if elapsed < max_wait_time then
        (if set (remdups (list_processed_files (fst (env i)))) = set previous_files then
           (if stable_count + 1 \<ge> 12
            then (StableExit, i + 1, remdups (list_processed_files (fst (env i))))
            else wait_loop env max_wait_time (i + 1) (elapsed + snd (env i) + 5)
                   previous_files (stable_count + 1))
         else wait_loop env max_wait_time (i + 1) (elapsed + snd (env i) + 5)
                (remdups (list_processed_files (fst (env i)))) 0)
      else (MaxWaitExit, i, previous_files))"
  by pat_completeness auto
termination
  by (relation "measure (\<lambda>(env, max_wait_time, i, elapsed, previous_files, stable_count).
        max_wait_time - elapsed)") auto

declare wait_loop.simps [simp del]

definition wait_for_file_processing_run :: "polls \<Rightarrow> nat \<Rightarrow> watch_exit \<times> nat \<times> string list" where
  "wait_for_file_processing_run env max_wait_time = wait_loop env max_wait_time 0 0 [] 0"

definition wait_for_file_processing :: "polls \<Rightarrow> nat \<Rightarrow> string list" where
  "wait_for_file_processing env max_wait_time =
     snd (snd (wait_for_file_processing_run env max_wait_time))"

section \<open>The remote services\<close>

text \<open>
  While it processes the files of a batch, the program talks to the object store and to
  the query engine through the calls below. Every such call is recorded, with its
  arguments, in the history of the run (the pauses of \<^verbatim>\<open>time.sleep\<close> are not); the
  answer to a call is any function of the history up to and including that call, so
  that nothing is assumed about the services. An answer is a value or an exception.
  An SQL statement is the template the source fills, with its parameters.

  \<open>environ\<close> is \<^verbatim>\<open>os.environ\<close>, which does not change during a run. The existence
  check and the table creation read \<^verbatim>\<open>REDSHIFT_DATABASE\<close> and \<^verbatim>\<open>REDSHIFT_WORKGROUP\<close>
  while the arguments of their call are evaluated, so that a variable that is not set
  raises \<^verbatim>\<open>KeyError\<close> before the call is made. The load of a file comes after one of
  the two has returned without exception, that is with both variables set; the role
  that the text of its \<^verbatim>\<open>COPY\<close> statement reads is taken to be set.
\<close>

datatype sql =
    TableExistsQuery string
  | CreateTableIfNotExists string "(string \<times> string) list"
  | CopyCommand string string string
  | CountRows string

datatype event =
    GetObject string string
  | ExecuteStatement sql
  | DescribeStatement string
  | GetStatementResult string
  | CopyObject string string string
  | DeleteObject string string

datatype field = LongValue int | StringValue string | IsNull

record describe_response =
  Status :: status
  Error :: "string option"

record world =
  environ :: "string \<Rightarrow> string option"
  get_object :: "event list \<Rightarrow> exn + string"
  read_csv :: "string \<Rightarrow> exn + (string \<times> series) list"
  execute_statement :: "event list \<Rightarrow> exn + string"
  describe_statement :: "event list \<Rightarrow> exn + describe_response"
  get_statement_result :: "event list \<Rightarrow> exn + field list list"
  copy_object :: "event list \<Rightarrow> exn + unit"
  delete_object :: "event list \<Rightarrow> exn + unit"

section \<open>The statement waiter: \<^verbatim>\<open>wait_for_query_completion\<close>\<close>

text \<open>
  \<^verbatim>\<open>
  def wait_for_query_completion(redshift_data, statement_id, expect_results=True):
      max_retries = 60
      retry_count = 0
      while retry_count < max_retries:
          status_response = redshift_data.describe_statement(Id=statement_id)
          status = status_response['Status']
          if status == 'FINISHED':
              if expect_results:
                  try:
                      result = redshift_data.get_statement_result(Id=statement_id)
                      return result
                  except redshift_data.exceptions.ResourceNotFoundException:
                      return None
              return None
          elif status in ['FAILED', 'ABORTED']:
              error_message = status_response.get('Error', 'No error message provided')
              raise Exception(f"Query failed with status {status}: {error_message}")
          retry_count += 1
          time.sleep(5)
      raise Exception("Query timed out waiting for completion")
  \<close>
  The loop counts \<^verbatim>\<open>retry_count\<close> up to \<^verbatim>\<open>max_retries\<close>; the model counts the polls
  that are left down to 0. The result is the \<^verbatim>\<open>Records\<close> of the answer.
\<close>

fun poll_statement ::
  "world \<Rightarrow> string \<Rightarrow> bool \<Rightarrow> nat \<Rightarrow> event list \<Rightarrow> (exn + field list list option) \<times> event list" where
  "poll_statement w statement_id expect_results 0 tr = (Inl QueryTimedOut, tr)"
| "poll_statement w statement_id expect_results (Suc retries_left) tr =
     (case describe_statement w (tr @ [DescribeStatement statement_id]) of
        Inl e \<Rightarrow> (Inl e, tr @ [DescribeStatement statement_id])
      | Inr status_response \<Rightarrow>
          if Status status_response = FINISHED then
            (if expect_results then
               (case get_statement_result w
                       (tr @ [DescribeStatement statement_id, GetStatementResult statement_id]) of
                  Inr result \<Rightarrow>
                    (Inr (Some result),
                     tr @ [DescribeStatement statement_id, GetStatementResult statement_id])
                | Inl e \<Rightarrow>
                    if e = ResourceNotFoundException
                    then (Inr None,
                          tr @ [DescribeStatement statement_id, GetStatementResult statement_id])
                    else (Inl e,
                          tr @ [DescribeStatement statement_id, GetStatementResult statement_id]))
             else (Inr None, tr @ [DescribeStatement statement_id]))
          else if Status status_response = FAILED \<or> Status status_response = ABORTED then
            (Inl (QueryFailed (Status status_response)
                    (case Error status_response of
                       None \<Rightarrow> ''No error message provided'' | Some m \<Rightarrow> m)),
             tr @ [DescribeStatement statement_id])
          else poll_statement w statement_id expect_results retries_left
                 (tr @ [DescribeStatement statement_id]))"

definition max_retries :: nat where
  "max_retries = 60"

definition wait_for_query_completion ::
  "world \<Rightarrow> string \<Rightarrow> bool \<Rightarrow> event list \<Rightarrow> (exn + field list list option) \<times> event list" where
  "wait_for_query_completion w statement_id expect_results tr =
     poll_statement w statement_id expect_results max_retries tr"

section \<open>Schema: \<^verbatim>\<open>check_table_exists\<close> and \<^verbatim>\<open>create_table\<close>\<close>

text \<open>
  \<^verbatim>\<open>int(result['Records'][0][0]['longValue'])\<close>, read when \<^verbatim>\<open>Records\<close> is not empty:
  an empty first row raises \<^verbatim>\<open>IndexError\<close>, a first field that holds no
  \<^verbatim>\<open>longValue\<close> raises \<^verbatim>\<open>KeyError\<close>.
\<close>

text \<open>
  \<^verbatim>\<open>Database=os.environ['REDSHIFT_DATABASE'], WorkgroupName=os.environ['REDSHIFT_WORKGROUP']\<close>,
  the first two arguments of a call of \<^verbatim>\<open>execute_statement\<close>, evaluated in this order.
\<close>

definition redshift_target :: "world \<Rightarrow> exn + string \<times> string" where
  "redshift_target w =
     (case environ w ''REDSHIFT_DATABASE'' of
        None \<Rightarrow> Inl KeyError
      | Some database \<Rightarrow>
          (case environ w ''REDSHIFT_WORKGROUP'' of
             None \<Rightarrow> Inl KeyError
           | Some workgroup \<Rightarrow> Inr (database, workgroup)))"

fun first_long_value :: "field list list \<Rightarrow> exn + int" where
  "first_long_value ((LongValue n # fs) # rows) = Inr n"
| "first_long_value ((f # fs) # rows) = Inl KeyError"
| "first_long_value ([] # rows) = Inl IndexError"
| "first_long_value [] = Inl IndexError"

text \<open>
  \<^verbatim>\<open>
  def check_table_exists(redshift_data, table_name):
      try:
          response = redshift_data.execute_statement(
              Database=os.environ['REDSHIFT_DATABASE'],
              WorkgroupName=os.environ['REDSHIFT_WORKGROUP'],
              Sql=sql)
          result = wait_for_query_completion(redshift_data, response['Id'])
          if result and result.get('Records'):
              count = int(result['Records'][0][0]['longValue'])
              return count > 0
          return False
      except Exception as e:
          return False
  \<close>
  \<open>run_table_exists_query\<close> is the call, once its arguments are evaluated, and what
  follows it; \<open>check_table_exists_body\<close> is the whole body of the \<^verbatim>\<open>try\<close>.
\<close>

definition run_table_exists_query ::
  "world \<Rightarrow> string \<Rightarrow> event list \<Rightarrow> (exn + bool) \<times> event list" where
  "run_table_exists_query w table_name tr =
     (case execute_statement w (tr @ [ExecuteStatement (TableExistsQuery table_name)]) of
        Inl e \<Rightarrow> (Inl e, tr @ [ExecuteStatement (TableExistsQuery table_name)])
      | Inr statement_id \<Rightarrow>
          (case wait_for_query_completion w statement_id True
                  (tr @ [ExecuteStatement (TableExistsQuery table_name)]) of
             (Inl e, tr') \<Rightarrow> (Inl e, tr')
           | (Inr None, tr') \<Rightarrow> (Inr False, tr')
           | (Inr (Some records), tr') \<Rightarrow>
               if records \<noteq> [] then
                 (case first_long_value records of
                    Inl e \<Rightarrow> (Inl e, tr')
                  | Inr table_count \<Rightarrow> (Inr (table_count > 0), tr'))
               else (Inr False, tr')))"

definition check_table_exists_body ::
  "world \<Rightarrow> string \<Rightarrow> event list \<Rightarrow> (exn + bool) \<times> event list" where
  "check_table_exists_body w table_name tr =
     (case redshift_target w of
        Inl e \<Rightarrow> (Inl e, tr)
      | Inr target \<Rightarrow> run_table_exists_query w table_name tr)"

definition check_table_exists :: "world \<Rightarrow> string \<Rightarrow> event list \<Rightarrow> bool \<times> event list" where
  "check_table_exists w table_name tr =
     (case check_table_exists_body w table_name tr of
        (Inl e, tr') \<Rightarrow> (False, tr')
      | (Inr exists, tr') \<Rightarrow> (exists, tr'))"

text \<open>
  \<^verbatim>\<open>
  def create_table(redshift_data, table_name, df):
      try:
          columns = {clean_column_name(col): detect_data_type(df[col])
                    for col in df.columns}
          column_definitions = [f'"{col}" {dtype}' for col, dtype in columns.items()]
          create_table_sql = f"CREATE TABLE IF NOT EXISTS {table_name} (...);"
          response = redshift_data.execute_statement(
              Database=os.environ['REDSHIFT_DATABASE'],
              WorkgroupName=os.environ['REDSHIFT_WORKGROUP'],
              Sql=create_table_sql)
          wait_for_query_completion(redshift_data, response['Id'], expect_results=False)
      except Exception as e:
          raise
  \<close>
  A data frame is the list of its columns, each with its label; \<^verbatim>\<open>read_csv\<close> makes the
  labels distinct. The dictionary \<^verbatim>\<open>columns\<close> keeps a key at the place of its first
  insertion, with the value of its last. \<open>run_create_table\<close> is the call, once its
  arguments are evaluated, and what follows it.
\<close>

definition column_definitions :: "(string \<times> series) list \<Rightarrow> (string \<times> string) list" where
  "column_definitions df =
     fold (\<lambda>(col, values). AList.update (clean_column_name ascii_methods col) (detect_data_type values)) df []"

definition run_create_table ::
  "world \<Rightarrow> string \<Rightarrow> (string \<times> series) list \<Rightarrow> event list \<Rightarrow> (exn + unit) \<times> event list" where
  "run_create_table w table_name df tr =
     (case execute_statement w
             (tr @ [ExecuteStatement (CreateTableIfNotExists table_name (column_definitions df))]) of
        Inl e \<Rightarrow>
          (Inl e, tr @ [ExecuteStatement (CreateTableIfNotExists table_name (column_definitions df))])
      | Inr statement_id \<Rightarrow>
          (case wait_for_query_completion w statement_id False
                  (tr @ [ExecuteStatement (CreateTableIfNotExists table_name (column_definitions df))]) of
             (Inl e, tr') \<Rightarrow> (Inl e, tr')
           | (Inr result, tr') \<Rightarrow> (Inr (), tr')))"

definition create_table ::
  "world \<Rightarrow> string \<Rightarrow> (string \<times> series) list \<Rightarrow> event list \<Rightarrow> (exn + unit) \<times> event list" where
  "create_table w table_name df tr =
     (case redshift_target w of
        Inl e \<Rightarrow> (Inl e, tr)
      | Inr target \<Rightarrow> run_create_table w table_name df tr)"

section \<open>Load and verification: \<^verbatim>\<open>load_data_to_redshift\<close>\<close>

text \<open>
  \<^verbatim>\<open>
  def load_data_to_redshift(redshift_data, table_name, bucket, key):
      try:
          copy_response = redshift_data.execute_statement(..., Sql=copy_command)
          wait_for_query_completion(redshift_data, copy_response['Id'], expect_results=False)
          verify_sql = f"SELECT COUNT(*) FROM {table_name};"
          verify_response = redshift_data.execute_statement(..., Sql=verify_sql)
          result = wait_for_query_completion(redshift_data, verify_response['Id'])
          if result and result.get('Records'):
              row_count = int(result['Records'][0][0]['longValue'])
              if row_count == 0:
                  raise Exception(f"No data was loaded into {table_name}")
          else:
              raise Exception("Could not verify data load")
      except Exception as e:
          raise
  \<close>
\<close>

definition verify_row_count ::
  "world \<Rightarrow> string \<Rightarrow> event list \<Rightarrow> (exn + unit) \<times> event list" where
  "verify_row_count w table_name tr =
     (case execute_statement w (tr @ [ExecuteStatement (CountRows table_name)]) of
        Inl e \<Rightarrow> (Inl e, tr @ [ExecuteStatement (CountRows table_name)])
      | Inr verify_id \<Rightarrow>
          (case wait_for_query_completion w verify_id True
                  (tr @ [ExecuteStatement (CountRows table_name)]) of
             (Inl e, tr') \<Rightarrow> (Inl e, tr')
           | (Inr None, tr') \<Rightarrow> (Inl CouldNotVerify, tr')
           | (Inr (Some records), tr') \<Rightarrow>
               if records \<noteq> [] then
                 (case first_long_value records of
                    Inl e \<Rightarrow> (Inl e, tr')
                  | Inr row_count \<Rightarrow>
                      if row_count = 0 then (Inl (NoDataLoaded table_name), tr')
                      else (Inr (), tr'))
               else (Inl CouldNotVerify, tr')))"

definition load_data_to_redshift ::
  "world \<Rightarrow> string \<Rightarrow> string \<Rightarrow> string \<Rightarrow> event list \<Rightarrow> (exn + unit) \<times> event list" where
  "load_data_to_redshift w table_name bucket key tr =
     (case execute_statement w (tr @ [ExecuteStatement (CopyCommand table_name bucket key)]) of
        Inl e \<Rightarrow> (Inl e, tr @ [ExecuteStatement (CopyCommand table_name bucket key)])
      | Inr copy_id \<Rightarrow>
          (case wait_for_query_completion w copy_id False
                  (tr @ [ExecuteStatement (CopyCommand table_name bucket key)]) of
             (Inl e, tr') \<Rightarrow> (Inl e, tr')
           | (Inr result, tr') \<Rightarrow> verify_row_count w table_name tr'))"

section \<open>Relocation: \<^verbatim>\<open>move_to_completed\<close>\<close>

text \<open>
  \<^verbatim>\<open>source_key.replace('processed/', 'completed/')\<close>: every occurrence, from the left,
  without overlap.
\<close>

function replace_processed :: "string \<Rightarrow> string" where
  "replace_processed s =
     (if s = [] then []
      else if take 10 s = ''processed/'' then ''completed/'' @ replace_processed (drop 10 s)
      else hd s # replace_processed (tl s))"
  by pat_completeness auto
termination
  by (relation "measure length") auto

declare replace_processed.simps [simp del]

text \<open>
  \<^verbatim>\<open>
  def move_to_completed(s3_client, bucket, source_key):
      try:
          completed_key = source_key.replace('processed/', 'completed/')
          s3_client.copy_object(CopySource={'Bucket': bucket, 'Key': source_key},
                                Bucket=bucket, Key=completed_key)
          s3_client.delete_object(Bucket=bucket, Key=source_key)
      except Exception as e:
          raise
  \<close>
\<close>

definition move_to_completed ::
  "world \<Rightarrow> string \<Rightarrow> string \<Rightarrow> event list \<Rightarrow> (exn + unit) \<times> event list" where
  "move_to_completed w bucket source_key tr =
     (case copy_object w (tr @ [CopyObject bucket source_key (replace_processed source_key)]) of
        Inl e \<Rightarrow> (Inl e, tr @ [CopyObject bucket source_key (replace_processed source_key)])
      | Inr u \<Rightarrow>
          (case delete_object w
                  (tr @ [CopyObject bucket source_key (replace_processed source_key),
                         DeleteObject bucket source_key]) of
             Inl e \<Rightarrow>
               (Inl e, tr @ [CopyObject bucket source_key (replace_processed source_key),
                             DeleteObject bucket source_key])
           | Inr u' \<Rightarrow>
               (Inr (), tr @ [CopyObject bucket source_key (replace_processed source_key),
                              DeleteObject bucket source_key])))"

section \<open>The run: \<^verbatim>\<open>lambda_handler\<close>\<close>

text \<open>
  \<^verbatim>\<open>os.path.basename(key)\<close> is what follows the last \<^verbatim>\<open>/\<close>;
  \<^verbatim>\<open>os.path.splitext(name)[0]\<close> cuts a name without \<^verbatim>\<open>/\<close> at its last dot, unless only
  dots come before it.
\<close>

definition basename :: "string \<Rightarrow> string" where
  "basename p = rev (takeWhile (\<lambda>c. c \<noteq> CHR ''/'') (rev p))"

definition splitext_root :: "string \<Rightarrow> string" where
  "splitext_root p =
     (let ext = takeWhile (\<lambda>c. c \<noteq> CHR ''.'') (rev p)
      in if length ext = length p then p
         else if \<exists>c \<in> set (take (length p - length ext - 1) p). c \<noteq> CHR ''.''
              then take (length p - length ext - 1) p
              else p)"

definition table_name_of :: "string \<Rightarrow> string" where
  "table_name_of key = clean_column_name ascii_methods (splitext_root (basename key))"

text \<open>
  The body of the \<^verbatim>\<open>for\<close> loop, inside its \<^verbatim>\<open>try\<close>:
  \<^verbatim>\<open>
  response = s3.get_object(Bucket=bucket, Key=key)
  csv_content = response['Body'].read().decode('utf-8')
  df = pd.read_csv(StringIO(csv_content))
  file_name = os.path.splitext(os.path.basename(key))[0]
  table_name = clean_column_name(file_name)
  if not check_table_exists(redshift_data, table_name):
      create_table(redshift_data, table_name, df)
  load_data_to_redshift(redshift_data, table_name, bucket, key)
  move_to_completed(s3, bucket, key)
  \<close>
  \<open>get_object\<close> answers with the decoded content, or with the exception of the fetch or
  of the decoding.
\<close>

definition ensure_table ::
  "world \<Rightarrow> string \<Rightarrow> (string \<times> series) list \<Rightarrow> event list \<Rightarrow> (exn + unit) \<times> event list" where
  "ensure_table w table_name df tr =
     (case check_table_exists w table_name tr of
        (exists, tr') \<Rightarrow> if \<not> exists then create_table w table_name df tr' else (Inr (), tr'))"

definition load_and_move ::
  "world \<Rightarrow> string \<Rightarrow> string \<Rightarrow> event list \<Rightarrow> (exn + unit) \<times> event list" where
  "load_and_move w bucket key tr =
     (case load_data_to_redshift w (table_name_of key) bucket key tr of
        (Inl e, tr') \<Rightarrow> (Inl e, tr')
      | (Inr u, tr') \<Rightarrow> move_to_completed w bucket key tr')"

definition process_file ::
  "world \<Rightarrow> string \<Rightarrow> string \<Rightarrow> event list \<Rightarrow> (exn + unit) \<times> event list" where
  "process_file w bucket key tr =
     (case get_object w (tr @ [GetObject bucket key]) of
        Inl e \<Rightarrow> (Inl e, tr @ [GetObject bucket key])
      | Inr csv_content \<Rightarrow>
          (case read_csv w csv_content of
             Inl e \<Rightarrow> (Inl e, tr @ [GetObject bucket key])
           | Inr df \<Rightarrow>
               (case ensure_table w (table_name_of key) df (tr @ [GetObject bucket key]) of
                  (Inl e, tr') \<Rightarrow> (Inl e, tr')
                | (Inr u, tr') \<Rightarrow> load_and_move w bucket key tr')))"

text \<open>
  The loop over \<^verbatim>\<open>files_to_process\<close>, with the two lists it appends to:
  \<^verbatim>\<open>
  for key in files_to_process:
      try:
          ...
          processed_files.append(key)
      except Exception as e:
          failed_files.append({"file": key, "error": str(e)})
          continue
  \<close>
\<close>

fun process_files ::
  "world \<Rightarrow> string \<Rightarrow> string list \<Rightarrow> event list \<Rightarrow> string list \<times> (string \<times> exn) list \<Rightarrow>
   (string list \<times> (string \<times> exn) list) \<times> event list" where
  "process_files w bucket [] tr (processed_files, failed_files) =
     ((processed_files, failed_files), tr)"
| "process_files w bucket (key # keys) tr (processed_files, failed_files) =
     (case process_file w bucket key tr of
        (Inr u, tr') \<Rightarrow> process_files w bucket keys tr' (processed_files @ [key], failed_files)
      | (Inl e, tr') \<Rightarrow> process_files w bucket keys tr' (processed_files, failed_files @ [(key, e)]))"

text \<open>
  \<^verbatim>\<open>
  def lambda_handler(event, context):
      try:
          bucket = event['Records'][0]['s3']['bucket']['name']
          triggering_key = event['Records'][0]['s3']['object']['key']
          files_to_process = wait_for_file_processing(s3, bucket)
          processed_files = []
          failed_files = []
          for key in files_to_process: ...
          return {'statusCode': 200, 'body': {'message': ..., 'processed': processed_files,
                                              'failed': failed_files}}
      except Exception as e:
          return {'statusCode': 500, 'body': f'Error processing files: {str(e)}'}
  \<close>
  The event is its \<^verbatim>\<open>Records\<close>, absent (\<^verbatim>\<open>KeyError\<close>) or a list, which may be empty
  (\<^verbatim>\<open>IndexError\<close>).
\<close>

record s3_record =
  bucket_name :: string
  object_key :: string

datatype response =
    Response200 "string list" "(string \<times> exn) list"
  | Response500 exn

definition lambda_handler ::
  "s3_record list option \<Rightarrow> polls \<Rightarrow> world \<Rightarrow> response \<times> event list" where
  "lambda_handler event env w =
     (case event of
        None \<Rightarrow> (Response500 KeyError, [])
      | Some [] \<Rightarrow> (Response500 IndexError, [])
      | Some (r # rs) \<Rightarrow>
          (case process_files w (bucket_name r) (wait_for_file_processing env 300) [] ([], []) of
             ((processed_files, failed_files), tr) \<Rightarrow>
               (Response200 processed_files failed_files, tr)))"

section \<open>Notions of the specification\<close>

text \<open>
  The specification speaks of a value that parses as an integer with no fractional
  component: a cell of an integer column, a float without fraction, or a text of
  digits with an optional sign. \<open>integral_values\<close> says so of every cell of a column
  that is not missing.
\<close>

fun parses_as_integer :: "string \<Rightarrow> bool" where
  "parses_as_integer [] = False"
| "parses_as_integer (c # cs) =
     (if c = CHR ''-'' \<or> c = CHR ''+'' then cs \<noteq> [] \<and> list_all isdigit cs
      else list_all isdigit (c # cs))"

fun integral_values :: "series \<Rightarrow> bool" where
  "integral_values (IntS cells) = True"
| "integral_values (FloatS cells) = list_all (\<lambda>c. case c of None \<Rightarrow> True | Some q \<Rightarrow> of_int \<lfloor>q\<rfloor> = q) cells"
| "integral_values (ObjectS cells) =
     list_all (\<lambda>c. case c of None \<Rightarrow> True | Some (PyStr s) \<Rightarrow> parses_as_integer s | Some (PyBool b) \<Rightarrow> False) cells"
| "integral_values _ = False"

text \<open>
  What the idempotence of the sanitisation needs of Python's tables: the lower-case
  mapping of a character is never empty; an alphanumeric character that occurs in a
  lower-case mapping is its own lower-case mapping in every context; the underscore is
  its own lower-case mapping and is neither alphanumeric nor a digit; and the letters
  of the literals \<^verbatim>\<open>'unnamed_column'\<close> and \<^verbatim>\<open>'col_'\<close> are alphanumeric, no digits and
  their own lower-case mappings. Each is a fact of the Unicode tables of Python.
\<close>

definition python_str :: "'c str_methods \<Rightarrow> bool" where
  "python_str U =
     ((\<forall>b c a. lower_in_context U b c a \<noteq> []) \<and>
      (\<forall>b c a d. d \<in> set (lower_in_context U b c a) \<and> isalnum_of U d \<longrightarrow>
         (\<forall>b' a'. lower_in_context U b' d a' = [d])) \<and>
      (\<forall>b a. lower_in_context U b (literal_of U CHR ''_'') a = [literal_of U CHR ''_'']) \<and>
      \<not> isalnum_of U (literal_of U CHR ''_'') \<and>
      \<not> isdigit_of U (literal_of U CHR ''_'') \<and>
      (\<forall>c \<in> set ''unamedcol''.
         isalnum_of U (literal_of U c) \<and> \<not> isdigit_of U (literal_of U c) \<and>
         (\<forall>b a. lower_in_context U b (literal_of U c) a = [literal_of U c])))"

text \<open>
  \<open>underscored U x\<close> is the name lower-cased, with every character that is not
  alphanumeric replaced by an underscore. A character is \<open>settled\<close> when a second
  sanitisation leaves it as it is.
\<close>

definition underscored :: "'c str_methods \<Rightarrow> 'c list \<Rightarrow> 'c list" where
  "underscored U x =
     map (\<lambda>c. if isalnum_of U c then c else literal_of U CHR ''_'') (str_lower U x)"

definition settled :: "'c str_methods \<Rightarrow> 'c \<Rightarrow> bool" where
  "settled U c = ((\<forall>b a. lower_in_context U b c a = [c]) \<and>
                  (isalnum_of U c \<or> c = literal_of U CHR ''_''))"

text \<open>
  The tables of Python on the code points below 256 (Latin-1), every code point from 256
  on counting as a caseless character that is not alphanumeric: an instance beyond ASCII
  on which the sanitisation can be evaluated.
\<close>

definition latin1 :: "nat str_methods" where
  "latin1 =
     \<lparr>lower_in_context =
        (\<lambda>b c a. if (65 \<le> c \<and> c \<le> 90) \<or> (192 \<le> c \<and> c \<le> 222 \<and> c \<noteq> 215) then [c + 32] else [c]),
      isalnum_of =
        (\<lambda>c. (48 \<le> c \<and> c \<le> 57) \<or> (65 \<le> c \<and> c \<le> 90) \<or> (97 \<le> c \<and> c \<le> 122) \<or>
             c \<in> {170, 178, 179, 181, 185, 186, 188, 189, 190} \<or>
             (192 \<le> c \<and> c \<le> 255 \<and> c \<noteq> 215 \<and> c \<noteq> 247)),
      isdigit_of = (\<lambda>c. (48 \<le> c \<and> c \<le> 57) \<or> c \<in> {178, 179, 185}),
      literal_of = of_char\<rparr>"

text \<open>
  The stability watcher, as the specification describes it. \<open>listing env i\<close> is the set
  seen by poll \<open>i\<close> (polls are counted from 0) and \<open>previous_listing env i\<close> the set
  seen by the poll before, the empty set before the first. A poll is \<open>unchanged\<close> when the
  two are equal; the listing is \<open>quiescent\<close> at poll \<open>n\<close> when the 12 polls up to \<open>n\<close>
  were all unchanged. \<open>poll_time env i\<close> is the time that has passed when poll \<open>i\<close> is
  about to be made; \<open>streak env i\<close> counts the unchanged polls that come directly before
  poll \<open>i\<close>.
\<close>

definition listing :: "polls \<Rightarrow> nat \<Rightarrow> string set" where
  "listing env i = set (list_processed_files (fst (env i)))"

definition previous_listing :: "polls \<Rightarrow> nat \<Rightarrow> string set" where
  "previous_listing env i = (if i = 0 then {} else listing env (i - 1))"

definition unchanged :: "polls \<Rightarrow> nat \<Rightarrow> bool" where
  "unchanged env i = (listing env i = previous_listing env i)"

definition quiescent :: "polls \<Rightarrow> nat \<Rightarrow> bool" where
  "quiescent env n = (11 \<le> n \<and> (\<forall>j \<in> {n - 11..n}. unchanged env j))"

definition poll_time :: "polls \<Rightarrow> nat \<Rightarrow> nat" where
  "poll_time env i = (\<Sum>j < i. snd (env j) + 5)"

fun streak :: "polls \<Rightarrow> nat \<Rightarrow> nat" where
  "streak env 0 = 0"
| "streak env (Suc i) = (if unchanged env i then Suc (streak env i) else 0)"

text \<open>A store that lists the same single file at every poll, without delay.\<close>

definition steady :: polls where
  "steady = (\<lambda>i. (Inr [''processed/sales.csv''], 0))"

text \<open>
  The statement waiter, as the specification describes it. While no poll has settled
  the wait, the history grows by one \<open>DescribeStatement\<close> for each poll, so the answer to
  poll \<open>i\<close> (counted from 0) of a wait that starts with history \<open>tr\<close> is \<open>status_at\<close>,
  and the answer to a fetch made after it is \<open>fetch_at\<close>. A poll is \<open>still_running\<close>
  when it answers with a status that is none of \<^verbatim>\<open>FINISHED\<close>, \<^verbatim>\<open>FAILED\<close>, \<^verbatim>\<open>ABORTED\<close>.
\<close>

definition status_at :: "world \<Rightarrow> string \<Rightarrow> event list \<Rightarrow> nat \<Rightarrow> exn + describe_response" where
  "status_at w statement_id tr i =
     describe_statement w (tr @ replicate (Suc i) (DescribeStatement statement_id))"

definition fetch_at :: "world \<Rightarrow> string \<Rightarrow> event list \<Rightarrow> nat \<Rightarrow> exn + field list list" where
  "fetch_at w statement_id tr i =
     get_statement_result w
       (tr @ replicate (Suc i) (DescribeStatement statement_id) @ [GetStatementResult statement_id])"

definition still_running :: "world \<Rightarrow> string \<Rightarrow> event list \<Rightarrow> nat \<Rightarrow> bool" where
  "still_running w statement_id tr i =
     (case status_at w statement_id tr i of
        Inl e \<Rightarrow> False
      | Inr r \<Rightarrow> Status r \<noteq> FINISHED \<and> Status r \<noteq> FAILED \<and> Status r \<noteq> ABORTED)"

definition status_is :: "world \<Rightarrow> string \<Rightarrow> event list \<Rightarrow> nat \<Rightarrow> status \<Rightarrow> bool" where
  "status_is w statement_id tr i st =
     (case status_at w statement_id tr i of Inl e \<Rightarrow> False | Inr r \<Rightarrow> Status r = st)"

text \<open>
  The two reasons for which the specification lets the waiter raise: a poll within the
  budget, reached with all polls before it still running, answers \<^verbatim>\<open>FAILED\<close> or
  \<^verbatim>\<open>ABORTED\<close>; or all polls of the budget are still running.
\<close>

definition failed_or_aborted :: "world \<Rightarrow> string \<Rightarrow> event list \<Rightarrow> bool" where
  "failed_or_aborted w statement_id tr =
     (\<exists>i < max_retries. (\<forall>j < i. still_running w statement_id tr j) \<and>
        (status_is w statement_id tr i FAILED \<or> status_is w statement_id tr i ABORTED))"

definition budget_exhausted :: "world \<Rightarrow> string \<Rightarrow> event list \<Rightarrow> bool" where
  "budget_exhausted w statement_id tr = (\<forall>j < max_retries. still_running w statement_id tr j)"

text \<open>
  A third reason, which the source lets through: a remote call of the wait itself
  raises, either the status call or, after \<^verbatim>\<open>FINISHED\<close> with results expected, the fetch
  with any exception other than \<^verbatim>\<open>ResourceNotFoundException\<close>.
\<close>

definition remote_call_failed :: "world \<Rightarrow> string \<Rightarrow> bool \<Rightarrow> event list \<Rightarrow> bool" where
  "remote_call_failed w statement_id expect_results tr =
     (\<exists>i < max_retries. (\<forall>j < i. still_running w statement_id tr j) \<and>
        (isl (status_at w statement_id tr i) \<or>
         (status_is w statement_id tr i FINISHED \<and> expect_results \<and>
          isl (fetch_at w statement_id tr i) \<and>
          fetch_at w statement_id tr i \<noteq> Inl ResourceNotFoundException)))"

text \<open>
  Worlds for the examples. In each, the store hands out one small file and every statement
  is \<^verbatim>\<open>FINISHED\<close> at its first poll; they differ in what a fetch of results answers.
  In \<open>world_fetching\<close> every environment variable is set; \<open>world_unconfigured\<close> is such a
  world with none set.
\<close>

definition sample_df :: "(string \<times> series) list" where
  "sample_df = [(''id'', IntS [1, 2]), (''Total'', FloatS [Some 1, None])]"

definition world_fetching :: "(exn + field list list) \<Rightarrow> world" where
  "world_fetching answer =
     \<lparr>environ = (\<lambda>variable. Some ''configured''),
      get_object = (\<lambda>tr. Inr ''id,Total''),
      read_csv = (\<lambda>content. Inr sample_df),
      execute_statement = (\<lambda>tr. Inr ''stmt''),
      describe_statement = (\<lambda>tr. Inr \<lparr>Status = FINISHED, Error = None\<rparr>),
      get_statement_result = (\<lambda>tr. answer),
      copy_object = (\<lambda>tr. Inr ()),
      delete_object = (\<lambda>tr. Inr ())\<rparr>"

definition world_unconfigured :: world where
  "world_unconfigured = (world_fetching (Inr [[LongValue 3]]))\<lparr>environ := (\<lambda>variable. None)\<rparr>"

text \<open>
  Relocation, as the specification describes it. The events that touch a stored file
  are \<open>CopyObject\<close> and \<open>DeleteObject\<close>. \<open>row_count_positive w t\<close> says that the fetch
  which ends the history \<open>t\<close> answered with a count that is not 0. The event at place
  \<open>i\<close> of a history \<open>T\<close> is \<open>move_allowed\<close> when, if it is a copy, it copies a file of
  the bucket to its completed key and the history before it is one at which the load of
  that file returned verified; and, if it is a delete, the event just before it is that
  copy of the same file, the copy was answered without exception, and the history before
  the copy is one at which the load of the file returned verified.
\<close>

fun is_move :: "event \<Rightarrow> bool" where
  "is_move (CopyObject b k d) = True"
| "is_move (DeleteObject b k) = True"
| "is_move ev = False"

definition row_count_positive :: "world \<Rightarrow> event list \<Rightarrow> bool" where
  "row_count_positive w t =
     (case get_statement_result w t of
        Inl e \<Rightarrow> False
      | Inr rows \<Rightarrow> (case first_long_value rows of Inl e \<Rightarrow> False | Inr n \<Rightarrow> n \<noteq> 0))"

definition load_verified :: "world \<Rightarrow> string \<Rightarrow> string \<Rightarrow> event list \<Rightarrow> bool" where
  "load_verified w bucket key t =
     ((\<exists>t0. load_data_to_redshift w (table_name_of key) bucket key t0 = (Inr (), t)) \<and>
      row_count_positive w t)"

definition move_allowed :: "world \<Rightarrow> string \<Rightarrow> event list \<Rightarrow> nat \<Rightarrow> bool" where
  "move_allowed w bucket T i =
     (case T ! i of
        CopyObject b k d \<Rightarrow>
          b = bucket \<and> d = replace_processed k \<and> load_verified w bucket k (take i T)
      | DeleteObject b k \<Rightarrow>
          b = bucket \<and> 0 < i \<and> T ! (i - 1) = CopyObject bucket k (replace_processed k) \<and>
          copy_object w (take i T) = Inr () \<and> load_verified w bucket k (take (i - 1) T)
      | ev \<Rightarrow> True)"

section \<open>Sanitisation and type inference: proofs\<close>

lemmas char_class_defs = isalnum_def isdigit_def isupper_def islower_def lower_char_def
  digits_def ascii_uppercase_def ascii_lowercase_def

lemma lower_char_not_upper: "\<not> isupper (lower_char c)"
  by (auto simp add: isupper_def lower_char_def ascii_uppercase_def ascii_lowercase_def)

lemma lower_char_fix: "\<not> isupper c \<Longrightarrow> lower_char c = c"
  by (auto simp add: isupper_def lower_char_def ascii_uppercase_def ascii_lowercase_def)

lemma lower_from_nonempty:
  assumes "\<forall>b c a. lower_in_context U b c a \<noteq> []"
  shows "s \<noteq> [] \<Longrightarrow> lower_from U b s \<noteq> []"
  using assms by (cases s) simp_all

lemma lower_from_settled:
  assumes "\<forall>c \<in> set t. settled U c"
  shows "lower_from U b t = t"
  using assms by (induction t arbitrary: b) (simp_all add: settled_def)

lemma lower_from_alnum_settled:
  assumes "python_str U" and "d \<in> set (lower_from U b s)" and "isalnum_of U d"
  shows "settled U d"
  using assms(2)
proof (induction s arbitrary: b)
  case Nil
  then show ?case by simp
next
  case (Cons c s)
  then consider "d \<in> set (lower_in_context U b c s)" | "d \<in> set (lower_from U (b @ [c]) s)"
    by auto
  then show ?case
  proof cases
    case 1
    then have "\<forall>b' a'. lower_in_context U b' d a' = [d]"
      using assms(1,3) unfolding python_str_def by blast
    then show ?thesis using assms(3) by (simp add: settled_def)
  next
    case 2
    then show ?thesis by (rule Cons.IH)
  qed
qed

lemma underscore_settled: "python_str U \<Longrightarrow> settled U (literal_of U CHR ''_'')"
  by (simp add: python_str_def settled_def)

lemma letter_settled:
  "python_str U \<Longrightarrow> c \<in> set ''unamedcol'' \<Longrightarrow>
   settled U (literal_of U c) \<and> \<not> isdigit_of U (literal_of U c)"
  unfolding python_str_def settled_def by blast

lemma underscored_settled:
  assumes "python_str U"
  shows "\<forall>c \<in> set (underscored U x). settled U c"
proof
  fix c
  assume "c \<in> set (underscored U x)"
  then obtain d where d: "d \<in> set (str_lower U x)"
      "c = (if isalnum_of U d then d else literal_of U CHR ''_'')"
    by (auto simp add: underscored_def)
  show "settled U c"
  proof (cases "isalnum_of U d")
    case True
    then show ?thesis
      using d lower_from_alnum_settled[OF assms, of d "[]" x] by (simp add: str_lower_def)
  next
    case False
    then show ?thesis using d(2) underscore_settled[OF assms] by simp
  qed
qed

lemma underscored_nonempty:
  assumes "python_str U" and "x \<noteq> []"
  shows "underscored U x \<noteq> []"
proof -
  have "\<forall>b c a. lower_in_context U b c a \<noteq> []" using assms(1) by (simp add: python_str_def)
  then have "str_lower U x \<noteq> []"
    unfolding str_lower_def using assms(2) by (rule lower_from_nonempty)
  then show ?thesis by (simp add: underscored_def)
qed

lemma clean_column_name_nonempty:
  "x \<noteq> [] \<Longrightarrow> clean_column_name U x =
     (if isdigit_of U (hd (underscored U x)) then map (literal_of U) ''col_'' @ underscored U x
      else underscored U x)"
  by (simp add: clean_column_name_def underscored_def Let_def)

lemma underscored_of_settled:
  assumes "python_str U" and "\<forall>c \<in> set t. settled U c"
  shows "underscored U t = t"
proof -
  have low: "str_lower U t = t"
    unfolding str_lower_def using assms(2) by (rule lower_from_settled)
  have "\<not> isalnum_of U (literal_of U CHR ''_'')" using assms(1) by (simp add: python_str_def)
  then have "\<forall>c \<in> set t. (if isalnum_of U c then c else literal_of U CHR ''_'') = c"
    using assms(2) by (auto simp add: settled_def)
  then have "map (\<lambda>c. if isalnum_of U c then c else literal_of U CHR ''_'') t = t"
    by (simp add: map_idI)
  then show ?thesis by (simp add: underscored_def low)
qed

lemma clean_of_settled:
  assumes "python_str U" and "t \<noteq> []" and "\<forall>c \<in> set t. settled U c"
    and "\<not> isdigit_of U (hd t)"
  shows "clean_column_name U t = t"
  using assms by (simp add: clean_column_name_nonempty underscored_of_settled)

lemma placeholder_settled:
  assumes "python_str U"
  shows "\<forall>c \<in> set (map (literal_of U) ''unnamed_column''). settled U c"
    and "\<not> isdigit_of U (hd (map (literal_of U) ''unnamed_column''))"
    and "\<forall>c \<in> set (map (literal_of U) ''col_''). settled U c"
    and "\<not> isdigit_of U (hd (map (literal_of U) ''col_'' @ t))"
  using letter_settled[OF assms] underscore_settled[OF assms] by simp_all

lemma clean_column_name_facts:
  assumes "python_str U"
  shows "(\<forall>c \<in> set (clean_column_name U x). settled U c) \<and>
         clean_column_name U x \<noteq> [] \<and> \<not> isdigit_of U (hd (clean_column_name U x))"
proof (cases "x = []")
  case True
  then show ?thesis
    using placeholder_settled(1,2)[OF assms] by (simp add: clean_column_name_def)
next
  case False
  note ne = underscored_nonempty[OF assms False]
  note st = underscored_settled[OF assms, of x]
  show ?thesis
  proof (cases "isdigit_of U (hd (underscored U x))")
    case True
    then have eq: "clean_column_name U x = map (literal_of U) ''col_'' @ underscored U x"
      using False by (simp add: clean_column_name_nonempty)
    have "\<forall>c \<in> set (map (literal_of U) ''col_'' @ underscored U x). settled U c"
      using placeholder_settled(3)[OF assms] st by auto
    then show ?thesis
      unfolding eq using placeholder_settled(4)[OF assms, of "underscored U x"] by simp
  next
    case nd: False
    then have eq: "clean_column_name U x = underscored U x"
      using False by (simp add: clean_column_name_nonempty)
    show ?thesis unfolding eq using st ne nd by simp
  qed
qed

text \<open>
  Claim C6. For the tables of Python's string methods, sanitising a name twice gives
  what sanitising it once gives, for every string. The sanitisation is what the claim
  describes: the empty name becomes \<^verbatim>\<open>unnamed_column\<close>; any other name is lower-cased,
  every character that is not alphanumeric becomes an underscore, and \<^verbatim>\<open>col_\<close> is put
  in front when the result would start with a digit. The result is in lower case,
  consists of alphanumeric characters and underscores, and does not start with a digit.
\<close>

theorem clean_column_name_idempotent:
  assumes "python_str U"
  shows "clean_column_name U (clean_column_name U x) = clean_column_name U x \<and>
         clean_column_name U [] = map (literal_of U) ''unnamed_column'' \<and>
         (x \<noteq> [] \<longrightarrow>
            clean_column_name U x =
              (if isdigit_of U (hd (underscored U x))
               then map (literal_of U) ''col_'' @ underscored U x
               else underscored U x)) \<and>
         str_lower U (clean_column_name U x) = clean_column_name U x \<and>
         (\<forall>c \<in> set (clean_column_name U x). isalnum_of U c \<or> c = literal_of U CHR ''_'') \<and>
         \<not> isdigit_of U (hd (clean_column_name U x))"
proof -
  note facts = clean_column_name_facts[OF assms, of x]
  have idem: "clean_column_name U (clean_column_name U x) = clean_column_name U x"
    using facts by (intro clean_of_settled[OF assms]) simp_all
  have empty: "clean_column_name U [] = map (literal_of U) ''unnamed_column''"
    by (simp add: clean_column_name_def)
  have form: "x \<noteq> [] \<longrightarrow>
            clean_column_name U x =
              (if isdigit_of U (hd (underscored U x))
               then map (literal_of U) ''col_'' @ underscored U x
               else underscored U x)"
    by (simp add: clean_column_name_nonempty)
  have low: "str_lower U (clean_column_name U x) = clean_column_name U x"
    unfolding str_lower_def using facts by (intro lower_from_settled) simp
  have chars: "\<forall>c \<in> set (clean_column_name U x). isalnum_of U c \<or> c = literal_of U CHR ''_''"
    using facts by (simp add: settled_def)
  show ?thesis using idem empty form low chars facts by blast
qed

lemma latin1_fields:
  "lower_in_context latin1 b c a =
     (if (65 \<le> c \<and> c \<le> 90) \<or> (192 \<le> c \<and> c \<le> 222 \<and> c \<noteq> 215) then [c + 32] else [c])"
  "isalnum_of latin1 c =
     ((48 \<le> c \<and> c \<le> 57) \<or> (65 \<le> c \<and> c \<le> 90) \<or> (97 \<le> c \<and> c \<le> 122) \<or>
      c \<in> {170, 178, 179, 181, 185, 186, 188, 189, 190} \<or>
      (192 \<le> c \<and> c \<le> 255 \<and> c \<noteq> 215 \<and> c \<noteq> 247))"
  "isdigit_of latin1 c = ((48 \<le> c \<and> c \<le> 57) \<or> c \<in> {178, 179, 185})"
  "literal_of latin1 = of_char"
  by (simp_all add: latin1_def)

lemma latin1_python_str: "python_str latin1"
  unfolding python_str_def
proof (intro conjI allI impI ballI)
  fix b c a d b' a'
  assume "d \<in> set (lower_in_context latin1 b c a) \<and> isalnum_of latin1 d"
  then show "lower_in_context latin1 b' d a' = [d]"
    by (auto simp add: latin1_fields split: if_splits)
qed (auto simp add: latin1_fields)

lemma latin1_lower: "str_lower latin1 [67, 97, 102, 201] = [99, 97, 102, 233]"
  by (simp add: str_lower_def latin1_fields)

text \<open>
  On the Latin-1 tables the name of code points 178, 120 (a superscript two, then \<^verbatim>\<open>x\<close>)
  becomes \<^verbatim>\<open>col_\<close> followed by the same two characters, the superscript two being a digit
  of Python, and the name of code points 67, 97, 102, 233 (\<^verbatim>\<open>Caf\<close>, then an e with an acute
  accent) keeps its accented letter, which is alphanumeric. Both results are fixed by a
  second sanitisation.
\<close>

theorem clean_column_name_idempotent_witness:
  "python_str latin1 \<and>
   clean_column_name latin1 [178, 120] = [99, 111, 108, 95, 178, 120] \<and>
   clean_column_name latin1 (clean_column_name latin1 [178, 120]) =
     clean_column_name latin1 [178, 120] \<and>
   clean_column_name latin1 [67, 97, 102, 233] = [99, 97, 102, 233] \<and>
   clean_column_name latin1 (clean_column_name latin1 [67, 97, 102, 233]) =
     clean_column_name latin1 [67, 97, 102, 233]"
proof -
  have a: "clean_column_name latin1 [178, 120] = [99, 111, 108, 95, 178, 120]"
    by (simp add: clean_column_name_def str_lower_def latin1_fields)
  have b: "clean_column_name latin1 [67, 97, 102, 233] = [99, 97, 102, 233]"
    by (simp add: clean_column_name_def str_lower_def latin1_fields)
  show ?thesis
    using latin1_python_str a b
      conjunct1[OF clean_column_name_idempotent[OF latin1_python_str, of "[178, 120]"]]
      conjunct1[OF clean_column_name_idempotent[OF latin1_python_str, of "[67, 97, 102, 233]"]]
    by (intro conjI)
qed

text \<open>The sanitisation of the names of a run, on the ASCII tables.\<close>

lemma ascii_fields:
  "lower_in_context ascii_methods before c after = [lower_char c]"
  "isalnum_of ascii_methods = isalnum"
  "isdigit_of ascii_methods = isdigit"
  "literal_of ascii_methods c = c"
  by (simp_all add: ascii_methods_def)

lemma map_literal_ascii: "map (literal_of ascii_methods) s = s"
  by (simp add: ascii_fields map_idI)

lemma lower_from_ascii: "lower_from ascii_methods before s = lower s"
  by (induction s arbitrary: before) (simp_all add: ascii_fields lower_def)

lemma clean_column_name_ascii:
  "clean_column_name ascii_methods column =
     (if column = [] then ''unnamed_column''
      else let cleaned = map (\<lambda>c. if isalnum c then c else CHR ''_'') (lower column)
           in if isdigit (hd cleaned) then ''col_'' @ cleaned else cleaned)"
  unfolding clean_column_name_def str_lower_def lower_from_ascii map_literal_ascii ascii_fields
  by (rule refl)

lemma ascii_literals:
  "\<not> isalnum CHR ''_''" "\<not> isdigit CHR ''_''" "lower_char CHR ''_'' = CHR ''_''"
  by (simp_all add: char_class_defs)

lemma ascii_letters_all:
  "list_all (\<lambda>c. isalnum c \<and> \<not> isdigit c \<and> lower_char c = c) ''unamedcol''"
  by (simp add: char_class_defs)

lemma ascii_letters:
  "c \<in> set ''unamedcol'' \<Longrightarrow> isalnum c \<and> \<not> isdigit c \<and> lower_char c = c"
  using ascii_letters_all unfolding list_all_iff by (rule bspec)

lemma ascii_python_str: "python_str ascii_methods"
  unfolding python_str_def ascii_fields
proof (intro conjI allI impI ballI)
  fix c d
  assume "d \<in> set [lower_char c] \<and> isalnum d"
  then have "d = lower_char c" by simp
  then show "[lower_char d] = [d]" using lower_char_fix[OF lower_char_not_upper[of c]] by simp
qed (simp_all add: ascii_literals ascii_letters)

lemma str_256: "str_nat 256 = ''256''" by (simp add: str_nat.simps digits_def)

lemma detect_cases:
  "detect_data_type v = ''TIMESTAMP'' \<or> detect_data_type v = ''BOOLEAN'' \<or>
   detect_data_type v = ''BIGINT'' \<or> detect_data_type v = ''DECIMAL(18,2)'' \<or>
   (\<exists>n. 256 \<le> n \<and> n \<le> 65535 \<and> detect_data_type v = ''VARCHAR('' @ str_nat n @ '')'')"
proof (cases v)
  case (ObjectS cells)
  show ?thesis
  proof (cases "count_present cells = 0")
    case True
    then have "detect_data_type v = ''VARCHAR('' @ str_nat 256 @ '')''"
      using ObjectS by (simp add: detect_data_type_def detect_data_type_body_def str_256)
    moreover have "(256::nat) \<le> 256 \<and> (256::nat) \<le> 65535" by simp
    ultimately show ?thesis by blast
  next
    case False
    let ?n = "min (max (astype_str_len_max v * 2) 256) 65535"
    have "detect_data_type v = ''VARCHAR('' @ str_nat ?n @ '')''"
      using ObjectS False by (simp add: detect_data_type_def detect_data_type_body_def Let_def)
    moreover have "256 \<le> ?n \<and> ?n \<le> 65535" by simp
    ultimately show ?thesis by blast
  qed
qed (auto simp add: detect_data_type_def detect_data_type_body_def str_256 intro!: exI[of _ 256])

lemma fold_max_Max: "fold max (xs :: nat list) 0 = Max (insert 0 (set xs))"
  using Max.set_eq_fold[of 0 xs] by simp

lemma clamp_nan:
  fixes m :: nat
  shows "min (max (max m 3 * 2) 256) 65535 = min (max (m * 2) 256) 65535"
  by (simp add: max_def min_def)

lemma str_len_split:
  "str_len ` set cells =
     str_len ` set (filter (\<lambda>c. c \<noteq> None) cells) \<union> (if None \<in> set cells then {3} else {})"
proof -
  have "set cells = set (filter (\<lambda>c. c \<noteq> None) cells) \<union> (if None \<in> set cells then {None} else {})"
    by auto (metis not_None_eq)
  then have "str_len ` set cells =
      str_len ` (set (filter (\<lambda>c. c \<noteq> None) cells) \<union> (if None \<in> set cells then {None} else {}))"
    by simp
  also have "\<dots> = str_len ` set (filter (\<lambda>c. c \<noteq> None) cells) \<union> (if None \<in> set cells then {3} else {})"
    by (simp add: image_Un)
  finally show ?thesis .
qed

lemma astype_str_len_max_present:
  assumes "0 < count_present cells"
  shows "min (max (astype_str_len_max (ObjectS cells) * 2) 256) 65535 =
         min (max (Max (set (map str_len (filter (\<lambda>c. c \<noteq> None) cells))) * 2) 256) 65535"
proof -
  let ?N = "str_len ` set (filter (\<lambda>c. c \<noteq> None) cells)"
  have ne: "?N \<noteq> {}" using assms by (auto simp add: count_present_def filter_empty_conv)
  have fin: "finite ?N" by simp
  have all: "astype_str_len_max (ObjectS cells) = Max (insert 0 (str_len ` set cells))"
    by (simp add: fold_max_Max)
  show ?thesis
  proof (cases "None \<in> set cells")
    case True
    then have "str_len ` set cells = insert 3 ?N" using str_len_split[of cells] by simp
    then have "astype_str_len_max (ObjectS cells) = Max (insert 0 (insert 3 ?N))" using all by simp
    also have "\<dots> = max (Max ?N) 3" using ne fin by (simp add: max.commute)
    finally show ?thesis by (simp add: clamp_nan)
  next
    case False
    then have "str_len ` set cells = ?N" using str_len_split[of cells] by simp
    then have "astype_str_len_max (ObjectS cells) = Max (insert 0 ?N)" using all by simp
    also have "\<dots> = Max ?N" using ne fin by simp
    finally show ?thesis by simp
  qed
qed

text \<open>
  Claim C7. A column that reaches the text case (an \<^verbatim>\<open>object\<close> column with a cell that
  is not missing) gets \<^verbatim>\<open>VARCHAR(capacity)\<close>, the capacity being twice the greatest
  string length among the cells that are not missing, raised to 256 and cut at 65535.
  The source measures the missing cells too, as \<^verbatim>\<open>'nan'\<close>; their length 3 never shows
  through the lower bound.
\<close>

theorem varchar_capacity:
  assumes "0 < count_present cells"
  shows "detect_data_type (ObjectS cells) =
         ''VARCHAR('' @ str_nat (min (max (Max (set (map str_len (filter (\<lambda>c. c \<noteq> None) cells))) * 2) 256) 65535) @ '')''"
proof -
  have "detect_data_type (ObjectS cells) =
        ''VARCHAR('' @ str_nat (min (max (astype_str_len_max (ObjectS cells) * 2) 256) 65535) @ '')''"
    using assms by (simp add: detect_data_type_def detect_data_type_body_def Let_def)
  then show ?thesis using astype_str_len_max_present[OF assms] by simp
qed

theorem varchar_capacity_witness:
  "0 < count_present [Some (PyStr (replicate 200 CHR ''x'')), None, Some (PyStr ''ab'')] \<and>
   detect_data_type (ObjectS [Some (PyStr (replicate 200 CHR ''x'')), None, Some (PyStr ''ab'')]) = ''VARCHAR(400)''"
proof -
  have h: "0 < count_present [Some (PyStr (replicate 200 CHR ''x'')), None, Some (PyStr ''ab'')]"
    by (simp add: count_present_def)
  have "str_nat 400 = ''400''" by (simp add: str_nat.simps digits_def)
  then show ?thesis using h varchar_capacity[OF h] by simp
qed

text \<open>
  Claim C4, as amended. The integer case is decided by the dtype of the column, not by
  its values: a column of an integer dtype with at least one cell gets \<^verbatim>\<open>BIGINT\<close>.
\<close>

theorem integer_dtype_is_bigint:
  assumes "is_integer_dtype values" and "dropna_len values \<noteq> Inr 0"
  shows "detect_data_type values = ''BIGINT''"
  using assms by (cases "values") (simp_all add: detect_data_type_def detect_data_type_body_def)

theorem integer_dtype_is_bigint_witness:
  "is_integer_dtype (IntS [1, 2, 3]) \<and> dropna_len (IntS [1, 2, 3]) \<noteq> Inr 0 \<and>
   detect_data_type (IntS [1, 2, 3]) = ''BIGINT''"
  using integer_dtype_is_bigint[of "IntS [1, 2, 3]"] by simp

text \<open>
  Claim C4 as stated fails. A text column holding \<^verbatim>\<open>'99999999999999999999'\<close> (what
  \<^verbatim>\<open>read_csv\<close> makes of an integer beyond 64 bits) gets \<^verbatim>\<open>VARCHAR(256)\<close>, and a float
  column holding 1, a missing cell and 2 (what \<^verbatim>\<open>read_csv\<close> makes of an integer column
  with an empty cell) gets \<^verbatim>\<open>DECIMAL(18,2)\<close>, though every value of both is an integer
  with no fractional component.
\<close>

theorem integral_values_not_bigint_counterexample:
  "integral_values (ObjectS [Some (PyStr ''99999999999999999999'')]) \<and>
   detect_data_type (ObjectS [Some (PyStr ''99999999999999999999'')]) = ''VARCHAR(256)'' \<and>
   detect_data_type (ObjectS [Some (PyStr ''99999999999999999999'')]) \<noteq> ''BIGINT'' \<and>
   integral_values (FloatS [Some 1, None, Some 2]) \<and>
   detect_data_type (FloatS [Some 1, None, Some 2]) = ''DECIMAL(18,2)'' \<and>
   detect_data_type (FloatS [Some 1, None, Some 2]) \<noteq> ''BIGINT''"
  by (simp add: detect_data_type_def detect_data_type_body_def count_present_def
      str_nat.simps digits_def isdigit_def)

text \<open>
  Claim C8. Type inference answers for every argument with one of the storage types,
  a \<^verbatim>\<open>VARCHAR\<close> having a capacity from 256 to 65535; a column with no cell left once the
  missing ones are removed gets \<^verbatim>\<open>VARCHAR(256)\<close>, and so does an argument on which the
  body raises.
\<close>

theorem detect_data_type_total:
  "(detect_data_type values = ''TIMESTAMP'' \<or> detect_data_type values = ''BOOLEAN'' \<or>
    detect_data_type values = ''BIGINT'' \<or> detect_data_type values = ''DECIMAL(18,2)'' \<or>
    (\<exists>n. 256 \<le> n \<and> n \<le> 65535 \<and> detect_data_type values = ''VARCHAR('' @ str_nat n @ '')'')) \<and>
   (dropna_len values = Inr 0 \<longrightarrow> detect_data_type values = ''VARCHAR(256)'') \<and>
   (detect_data_type_body values = Inl e \<longrightarrow> detect_data_type values = ''VARCHAR(256)'')"
  using detect_cases[of "values"]
  by (simp add: detect_data_type_def detect_data_type_body_def)

theorem detect_data_type_total_witness:
  "dropna_len (ObjectS [None, None]) = Inr 0 \<and> detect_data_type (ObjectS [None, None]) = ''VARCHAR(256)'' \<and>
   detect_data_type_body NotASeries = Inl AttributeError \<and> detect_data_type NotASeries = ''VARCHAR(256)''"
  using detect_data_type_total[of "ObjectS [None, None]"] detect_data_type_total[of NotASeries AttributeError]
  by (simp add: count_present_def detect_data_type_body_def)

section \<open>The stability watcher: proofs\<close>

lemma streak_ge:
  "k \<le> streak env i \<longleftrightarrow> k \<le> i \<and> (\<forall>j. i - k \<le> j \<and> j < i \<longrightarrow> unchanged env j)"
proof (induction i arbitrary: k)
  case 0
  then show ?case by simp
next
  case (Suc i)
  show ?case
  proof (cases k)
    case 0
    then show ?thesis by auto
  next
    case (Suc k')
    show ?thesis
    proof (cases "unchanged env i")
      case True
      have "(\<forall>j. Suc i - Suc k' \<le> j \<and> j < Suc i \<longrightarrow> unchanged env j) \<longleftrightarrow>
            (\<forall>j. i - k' \<le> j \<and> j < i \<longrightarrow> unchanged env j)"
        using True by (auto simp add: less_Suc_eq)
      then show ?thesis using True Suc Suc.IH[of k'] by simp
    next
      case False
      then have "\<not> (\<forall>j. Suc i - Suc k' \<le> j \<and> j < Suc i \<longrightarrow> unchanged env j)"
        by (auto intro!: exI[of _ i])
      then show ?thesis using False Suc by simp
    qed
  qed
qed

lemma quiescent_streak: "quiescent env n \<longleftrightarrow> 12 \<le> streak env (Suc n)"
proof -
  have "12 \<le> streak env (Suc n) \<longleftrightarrow> 12 \<le> Suc n \<and> (\<forall>j. Suc n - 12 \<le> j \<and> j < Suc n \<longrightarrow> unchanged env j)"
    by (rule streak_ge)
  also have "\<dots> \<longleftrightarrow> quiescent env n"
    by (auto simp add: quiescent_def)
  finally show ?thesis by simp
qed

lemma poll_time_Suc: "poll_time env (Suc i) = poll_time env i + snd (env i) + 5"
  by (simp add: poll_time_def)

lemma poll_time_mono: "i \<le> j \<Longrightarrow> poll_time env i \<le> poll_time env j"
  by (induction j) (auto simp add: poll_time_Suc le_Suc_eq)


lemma set_current: "set (remdups (list_processed_files (fst (env i)))) = listing env i"
  by (simp add: listing_def)

lemma wait_loop_sound:
  assumes "set prev = previous_listing env i"
    and "sc = streak env i"
    and "sc < 12"
    and "t = poll_time env i"
    and "\<forall>m<i. \<not> quiescent env m \<and> poll_time env m < mw"
    and "wait_loop env mw i t prev sc = (ex, k, fs)"
  shows "(ex = StableExit \<longrightarrow>
            (\<exists>n. k = Suc n \<and> quiescent env n \<and> (\<forall>m<n. \<not> quiescent env m) \<and>
                 poll_time env n < mw \<and> fs = remdups (list_processed_files (fst (env n))))) \<and>
         (ex = MaxWaitExit \<longrightarrow>
            mw \<le> poll_time env k \<and> (\<forall>m<k. \<not> quiescent env m \<and> poll_time env m < mw) \<and>
            set fs = previous_listing env k)"
  using assms
proof (induction env mw i t prev sc rule: wait_loop.induct)
  case (1 env mw i t prev sc)
  note unfold = wait_loop.simps[of env mw i t prev sc]
  show ?case
  proof (cases "t < mw")
    case False
    then have "wait_loop env mw i t prev sc = (MaxWaitExit, i, prev)"
      using unfold by simp
    then have "ex = MaxWaitExit" "k = i" "fs = prev" using "1.prems"(6) by simp_all
    then show ?thesis using False "1.prems" by simp
  next
    case True
    let ?cur = "remdups (list_processed_files (fst (env i)))"
    have before: "\<forall>m<i. \<not> quiescent env m" using "1.prems"(5) by simp
    have time_i: "poll_time env i < mw" using True "1.prems"(4) by simp
    show ?thesis
    proof (cases "set ?cur = set prev")
      case same: True
      then have unch: "unchanged env i"
        using "1.prems"(1) by (simp add: unchanged_def listing_def)
      then have st: "streak env (Suc i) = Suc sc" using "1.prems"(2) by simp
      show ?thesis
      proof (cases "12 \<le> sc + 1")
        case True
        then have "wait_loop env mw i t prev sc = (StableExit, i + 1, ?cur)"
          using unfold \<open>t < mw\<close> same by simp
        then have res: "ex = StableExit" "k = Suc i" "fs = ?cur" using "1.prems"(6) by simp_all
        have "quiescent env i" using True st by (simp add: quiescent_streak)
        then show ?thesis using res before time_i by simp
      next
        case False
        then have step: "wait_loop env mw i t prev sc =
            wait_loop env mw (i + 1) (t + snd (env i) + 5) prev (sc + 1)"
          using unfold \<open>t < mw\<close> same by simp
        have nq: "\<not> quiescent env i" using False st by (simp add: quiescent_streak)
        have inv1: "set prev = previous_listing env (i + 1)"
          using same by (simp add: previous_listing_def listing_def)
        have inv2: "sc + 1 = streak env (i + 1)" using st by simp
        have inv3: "sc + 1 < 12" using False by simp
        have inv4: "t + snd (env i) + 5 = poll_time env (i + 1)"
          using "1.prems"(4) by (simp add: poll_time_Suc)
        have inv5: "\<forall>m<i + 1. \<not> quiescent env m \<and> poll_time env m < mw"
          using "1.prems"(5) nq time_i by (auto simp add: less_Suc_eq)
        have inv6: "wait_loop env mw (i + 1) (t + snd (env i) + 5) prev (sc + 1) = (ex, k, fs)"
          using step "1.prems"(6) by simp
        show ?thesis
          using "1.IH"(1)[OF \<open>t < mw\<close> same _ inv1 inv2 inv3 inv4 inv5 inv6] False by simp
      qed
    next
      case diff: False
      then have step: "wait_loop env mw i t prev sc =
          wait_loop env mw (i + 1) (t + snd (env i) + 5) ?cur 0"
        using unfold \<open>t < mw\<close> by simp
      have unch: "\<not> unchanged env i"
        using diff "1.prems"(1) by (simp add: unchanged_def listing_def)
      then have st: "streak env (Suc i) = 0" by simp
      have nq: "\<not> quiescent env i" using st by (simp add: quiescent_streak)
      have inv1: "set ?cur = previous_listing env (i + 1)"
        by (simp add: previous_listing_def listing_def)
      have inv2: "0 = streak env (i + 1)" using st by simp
      have inv3: "(0::nat) < 12" by simp
      have inv4: "t + snd (env i) + 5 = poll_time env (i + 1)"
        using "1.prems"(4) by (simp add: poll_time_Suc)
      have inv5: "\<forall>m<i + 1. \<not> quiescent env m \<and> poll_time env m < mw"
        using "1.prems"(5) nq time_i by (auto simp add: less_Suc_eq)
      have inv6: "wait_loop env mw (i + 1) (t + snd (env i) + 5) ?cur 0 = (ex, k, fs)"
        using step "1.prems"(6) by simp
      show ?thesis
        using "1.IH"(2)[OF \<open>t < mw\<close> diff inv1 inv2 inv3 inv4 inv5 inv6] by simp
    qed
  qed
qed

lemma wait_loop_distinct:
  "distinct prev \<Longrightarrow> distinct (snd (snd (wait_loop env mw i t prev sc)))"
proof (induction env mw i t prev sc rule: wait_loop.induct)
  case (1 env mw i t prev sc)
  show ?case
    using "1.IH" "1.prems" wait_loop.simps[of env mw i t prev sc]
    by (auto split: if_splits)
qed

text \<open>
  Claim C2. The watcher leaves through its stable exit exactly when some poll made
  before \<open>max_wait_time\<close> has passed ends 12 consecutive unchanged polls; it then leaves
  at the first such poll, not before, and returns the set that poll listed. Otherwise,
  at the first poll whose time is not below \<open>max_wait_time\<close>, it returns the set it
  remembers, stable or not. It returns in every case (the function is total, and a
  listing that raises counts as empty), and the list it returns has no duplicates.
\<close>

theorem stability_watcher:
  "(fst (wait_for_file_processing_run env mw) = StableExit \<longleftrightarrow>
      (\<exists>n. quiescent env n \<and> poll_time env n < mw)) \<and>
   (fst (wait_for_file_processing_run env mw) = StableExit \<longrightarrow>
      (\<exists>n. fst (snd (wait_for_file_processing_run env mw)) = Suc n \<and>
           quiescent env n \<and> (\<forall>m<n. \<not> quiescent env m) \<and> poll_time env n < mw \<and>
           set (wait_for_file_processing env mw) = listing env n)) \<and>
   (fst (wait_for_file_processing_run env mw) = MaxWaitExit \<longrightarrow>
      (\<exists>k. fst (snd (wait_for_file_processing_run env mw)) = k \<and>
           mw \<le> poll_time env k \<and> (\<forall>m<k. poll_time env m < mw) \<and>
           set (wait_for_file_processing env mw) = previous_listing env k)) \<and>
   distinct (wait_for_file_processing env mw)"
proof -
  obtain ex k fs where run: "wait_for_file_processing_run env mw = (ex, k, fs)"
    by (cases "wait_for_file_processing_run env mw") auto
  then have loop: "wait_loop env mw 0 0 [] 0 = (ex, k, fs)"
    by (simp add: wait_for_file_processing_run_def)
  have files: "wait_for_file_processing env mw = fs"
    using run by (simp add: wait_for_file_processing_def)
  have sound:
    "(ex = StableExit \<longrightarrow>
        (\<exists>n. k = Suc n \<and> quiescent env n \<and> (\<forall>m<n. \<not> quiescent env m) \<and>
             poll_time env n < mw \<and> fs = remdups (list_processed_files (fst (env n))))) \<and>
     (ex = MaxWaitExit \<longrightarrow>
        mw \<le> poll_time env k \<and> (\<forall>m<k. \<not> quiescent env m \<and> poll_time env m < mw) \<and>
        set fs = previous_listing env k)"
    by (rule wait_loop_sound[OF _ _ _ _ _ loop])
       (simp_all add: previous_listing_def poll_time_def)
  have complete: "ex = StableExit" if q: "quiescent env n" and t: "poll_time env n < mw" for n
  proof (rule ccontr)
    assume "ex \<noteq> StableExit"
    then have mx: "ex = MaxWaitExit" by (cases ex) simp_all
    then have late: "mw \<le> poll_time env k" and none: "\<forall>m<k. \<not> quiescent env m"
      using sound by simp_all
    have "k \<le> n" using q none by (meson not_le_imp_less)
    then have "poll_time env k \<le> poll_time env n" by (rule poll_time_mono)
    then show False using late t by simp
  qed
  have c1: "ex = StableExit \<longleftrightarrow> (\<exists>n. quiescent env n \<and> poll_time env n < mw)"
    using sound complete by blast
  have c2: "ex = StableExit \<longrightarrow>
      (\<exists>n. k = Suc n \<and> quiescent env n \<and> (\<forall>m<n. \<not> quiescent env m) \<and> poll_time env n < mw \<and>
           set fs = listing env n)"
    using sound by (auto simp add: listing_def)
  have c3: "ex = MaxWaitExit \<longrightarrow>
      mw \<le> poll_time env k \<and> (\<forall>m<k. poll_time env m < mw) \<and> set fs = previous_listing env k"
    using sound by simp
  have c4: "distinct fs"
    using wait_loop_distinct[of "[]" env mw 0 0 0] loop by simp
  show ?thesis using c1 c2 c3 c4 by (simp add: run files)
qed

lemma steady_listing: "listing steady i = {''processed/sales.csv''}"
  by (simp add: listing_def steady_def list_processed_files_def endswith_def lower_def
      lower_char_def ascii_uppercase_def ascii_lowercase_def)

lemma steady_poll_time: "poll_time steady i = i * 5"
  by (simp add: poll_time_def steady_def)

lemma steady_quiescent: "quiescent steady n \<longleftrightarrow> 12 \<le> n"
proof
  assume q: "quiescent steady n"
  then have "11 \<le> n" by (simp add: quiescent_def)
  moreover have "n \<noteq> 11"
  proof
    assume "n = 11"
    then have "unchanged steady 0" using q by (simp add: quiescent_def)
    then show False by (simp add: unchanged_def previous_listing_def steady_listing)
  qed
  ultimately show "12 \<le> n" by simp
next
  assume "12 \<le> n"
  then show "quiescent steady n"
    by (auto simp add: quiescent_def unchanged_def previous_listing_def steady_listing)
qed

theorem stability_watcher_witness:
  "quiescent steady 12 \<and> \<not> quiescent steady 11 \<and> poll_time steady 12 < 300 \<and>
   fst (wait_for_file_processing_run steady 300) = StableExit \<and>
   fst (snd (wait_for_file_processing_run steady 300)) = 13 \<and>
   set (wait_for_file_processing steady 300) = {''processed/sales.csv''} \<and>
   fst (wait_for_file_processing_run steady 30) = MaxWaitExit \<and>
   fst (snd (wait_for_file_processing_run steady 30)) = 6 \<and>
   set (wait_for_file_processing steady 30) = {''processed/sales.csv''}"
proof -
  have q: "quiescent steady 12 \<and> poll_time steady 12 < 300"
    by (simp add: steady_quiescent steady_poll_time)
  then have ex: "fst (wait_for_file_processing_run steady 300) = StableExit"
    using stability_watcher[of steady 300] by blast
  then obtain n where n: "fst (snd (wait_for_file_processing_run steady 300)) = Suc n"
      "quiescent steady n" "\<forall>m<n. \<not> quiescent steady m"
      "set (wait_for_file_processing steady 300) = listing steady n"
    using stability_watcher[of steady 300] by blast
  have "n = 12" using n(2,3) by (simp add: steady_quiescent) (metis le_antisym not_le_imp_less le_refl)
  have "\<not> (\<exists>n. quiescent steady n \<and> poll_time steady n < 30)"
    by (auto simp add: steady_quiescent steady_poll_time)
  then have "fst (wait_for_file_processing_run steady 30) \<noteq> StableExit"
    using stability_watcher[of steady 30] by blast
  then have mx: "fst (wait_for_file_processing_run steady 30) = MaxWaitExit"
    by (cases "fst (wait_for_file_processing_run steady 30)") simp_all
  then obtain k where k: "fst (snd (wait_for_file_processing_run steady 30)) = k"
      "30 \<le> poll_time steady k" "\<forall>m<k. poll_time steady m < 30"
      "set (wait_for_file_processing steady 30) = previous_listing steady k"
    using stability_watcher[of steady 30] by blast
  have "6 \<le> k" using k(2) by (simp add: steady_poll_time)
  moreover have "\<not> 6 < k" using k(3) by (auto simp add: steady_poll_time)
  ultimately have "k = 6" by simp
  show ?thesis
    using q ex n \<open>n = 12\<close> mx k \<open>k = 6\<close>
    by (simp add: steady_quiescent steady_listing previous_listing_def)
qed

section \<open>The statement waiter: proofs\<close>

lemma replicate_snoc_trace: "(tr @ [x]) @ replicate i x = tr @ replicate (Suc i) x"
  by (simp add: replicate_app_Cons_same)

lemma status_at_shift:
  "status_at w sid (tr @ [DescribeStatement sid]) j = status_at w sid tr (Suc j)"
  unfolding status_at_def using replicate_snoc_trace[of tr "DescribeStatement sid" "Suc j"] by simp

lemma still_running_shift:
  "still_running w sid (tr @ [DescribeStatement sid]) j = still_running w sid tr (Suc j)"
  by (simp add: still_running_def status_at_shift)

lemma status_at_0: "status_at w sid tr 0 = describe_statement w (tr @ [DescribeStatement sid])"
  by (simp add: status_at_def)

lemma fetch_at_0:
  "fetch_at w sid tr 0 = get_statement_result w (tr @ [DescribeStatement sid, GetStatementResult sid])"
  by (simp add: fetch_at_def)

lemma poll_statement_running:
  "still_running w sid tr 0 \<Longrightarrow>
   poll_statement w sid e (Suc n) tr = poll_statement w sid e n (tr @ [DescribeStatement sid])"
  by (auto simp add: still_running_def status_at_0 split: sum.splits)

lemma poll_statement_skip:
  "\<forall>j<i. still_running w sid tr j \<Longrightarrow>
   poll_statement w sid e (i + n) tr =
   poll_statement w sid e n (tr @ replicate i (DescribeStatement sid))"
proof (induction i arbitrary: tr)
  case 0
  then show ?case by simp
next
  case (Suc i)
  have first: "still_running w sid tr 0" using Suc.prems by simp
  have rest: "\<forall>j<i. still_running w sid (tr @ [DescribeStatement sid]) j"
    using Suc.prems by (simp add: still_running_shift)
  have "poll_statement w sid e (Suc i + n) tr =
        poll_statement w sid e (i + n) (tr @ [DescribeStatement sid])"
    using poll_statement_running[OF first] by simp
  also have "\<dots> = poll_statement w sid e n ((tr @ [DescribeStatement sid]) @ replicate i (DescribeStatement sid))"
    by (rule Suc.IH[OF rest])
  finally show ?case by (simp only: replicate_snoc_trace)
qed

lemma poll_statement_settled:
  assumes "\<not> still_running w sid tr 0"
  shows "fst (poll_statement w sid e (Suc n) tr) =
    (case status_at w sid tr 0 of
       Inl x \<Rightarrow> Inl x
     | Inr r \<Rightarrow>
         if Status r = FINISHED then
           (if e then (case fetch_at w sid tr 0 of
                         Inr rows \<Rightarrow> Inr (Some rows)
                       | Inl x \<Rightarrow> if x = ResourceNotFoundException then Inr None else Inl x)
            else Inr None)
         else Inl (QueryFailed (Status r)
                (case Error r of None \<Rightarrow> ''No error message provided'' | Some m \<Rightarrow> m)))"
  using assms
  by (auto simp add: still_running_def status_at_0 fetch_at_0 split: sum.splits)

lemma replicate_append_add: "replicate i x @ replicate j x @ ys = replicate (i + j) x @ ys"
  by (simp add: replicate_add)

lemma status_at_add:
  "status_at w sid (tr @ replicate i (DescribeStatement sid)) j = status_at w sid tr (i + j)"
  unfolding status_at_def append_assoc replicate_add[symmetric] add_Suc_right by (rule refl)

lemma fetch_at_add:
  "fetch_at w sid (tr @ replicate i (DescribeStatement sid)) j = fetch_at w sid tr (i + j)"
  unfolding fetch_at_def append_assoc replicate_append_add add_Suc_right by (rule refl)

lemma still_running_add:
  "still_running w sid (tr @ replicate i (DescribeStatement sid)) j = still_running w sid tr (i + j)"
  by (simp add: still_running_def status_at_add)

lemma wait_settled_at:
  assumes run: "\<forall>j<i. still_running w sid tr j" and stop: "\<not> still_running w sid tr i"
    and i: "i < max_retries"
  shows "fst (wait_for_query_completion w sid e tr) =
    (case status_at w sid tr i of
       Inl x \<Rightarrow> Inl x
     | Inr r \<Rightarrow>
         if Status r = FINISHED then
           (if e then (case fetch_at w sid tr i of
                         Inr rows \<Rightarrow> Inr (Some rows)
                       | Inl x \<Rightarrow> if x = ResourceNotFoundException then Inr None else Inl x)
            else Inr None)
         else Inl (QueryFailed (Status r)
                (case Error r of None \<Rightarrow> ''No error message provided'' | Some m \<Rightarrow> m)))"
proof -
  obtain n where n: "max_retries = i + Suc n"
    using i by (metis less_imp_Suc_add add_Suc_right)
  let ?tr = "tr @ replicate i (DescribeStatement sid)"
  have "wait_for_query_completion w sid e tr = poll_statement w sid e (Suc n) ?tr"
    unfolding wait_for_query_completion_def n by (rule poll_statement_skip[OF run])
  then have eq: "fst (wait_for_query_completion w sid e tr) = fst (poll_statement w sid e (Suc n) ?tr)"
    by (rule arg_cong)
  have "\<not> still_running w sid ?tr 0" using stop by (simp add: still_running_add)
  note settled = poll_statement_settled[OF this, of e n]
  show ?thesis
    unfolding eq settled status_at_add fetch_at_add add_0_right by (rule refl)
qed

lemma wait_exhausted:
  assumes "\<forall>j<max_retries. still_running w sid tr j"
  shows "wait_for_query_completion w sid e tr =
         (Inl QueryTimedOut, tr @ replicate max_retries (DescribeStatement sid))"
  using poll_statement_skip[OF assms, of e 0]
  by (simp add: wait_for_query_completion_def)

lemma first_settled_exists:
  fixes P :: "nat \<Rightarrow> bool"
  assumes "\<not> (\<forall>j<n. P j)"
  shows "\<exists>i<n. (\<forall>j<i. P j) \<and> \<not> P i"
proof -
  obtain k where k: "k < n" "\<not> P k" using assms by auto
  define i where "i = (LEAST k. \<not> P k)"
  have "\<not> P i" unfolding i_def using k(2) by (rule LeastI[of "\<lambda>k. \<not> P k" k])
  moreover have "\<forall>j<i. P j" unfolding i_def using not_less_Least by blast
  moreover have "i \<le> k" unfolding i_def using k(2) by (rule Least_le[of "\<lambda>k. \<not> P k" k])
  ultimately show ?thesis using k(1) by (meson le_less_trans)
qed

lemma first_settled_unique:
  fixes P :: "nat \<Rightarrow> bool"
  assumes "\<forall>j<i. P j" "\<not> P i" "\<forall>j<k. P j" "\<not> P k"
  shows "i = k"
  using assms by (meson linorder_neqE_nat)

lemma status_is_not_running: "status_is w sid tr i FINISHED \<Longrightarrow> \<not> still_running w sid tr i"
  "status_is w sid tr i FAILED \<Longrightarrow> \<not> still_running w sid tr i"
  "status_is w sid tr i ABORTED \<Longrightarrow> \<not> still_running w sid tr i"
  "isl (status_at w sid tr i) \<Longrightarrow> \<not> still_running w sid tr i"
  by (auto simp add: status_is_def still_running_def split: sum.splits)

lemma settled_raises:
  assumes run: "\<forall>j<i. still_running w sid tr j" and stop: "\<not> still_running w sid tr i"
    and i: "i < max_retries"
  shows "isl (fst (wait_for_query_completion w sid e tr)) \<longleftrightarrow>
     status_is w sid tr i FAILED \<or> status_is w sid tr i ABORTED \<or> isl (status_at w sid tr i) \<or>
     (status_is w sid tr i FINISHED \<and> e \<and> isl (fetch_at w sid tr i) \<and>
      fetch_at w sid tr i \<noteq> Inl ResourceNotFoundException)"
  using stop unfolding wait_settled_at[OF run stop i]
  by (auto simp add: status_is_def still_running_def split: sum.splits)

text \<open>
  Claim C9, as amended. The waiter raises exactly when a poll within the budget of 60
  answers \<^verbatim>\<open>FAILED\<close> or \<^verbatim>\<open>ABORTED\<close>, when all 60 polls are still running, or when a
  remote call of the wait itself raises (the status call, or the fetch with an exception
  other than \<^verbatim>\<open>ResourceNotFoundException\<close>). On \<^verbatim>\<open>FINISHED\<close> it returns nothing when no
  result is expected, the fetched rows when the fetch answers, and nothing, without
  raising, when the fetch raises \<^verbatim>\<open>ResourceNotFoundException\<close>.
\<close>

theorem waiter_raises_exactly:
  "(isl (fst (wait_for_query_completion w sid e tr)) \<longleftrightarrow>
      failed_or_aborted w sid tr \<or> budget_exhausted w sid tr \<or> remote_call_failed w sid e tr) \<and>
   (\<forall>i<max_retries. (\<forall>j<i. still_running w sid tr j) \<and> status_is w sid tr i FINISHED \<longrightarrow>
      (\<not> e \<longrightarrow> fst (wait_for_query_completion w sid e tr) = Inr None) \<and>
      (e \<longrightarrow> (\<forall>rows. fetch_at w sid tr i = Inr rows \<longrightarrow>
                  fst (wait_for_query_completion w sid e tr) = Inr (Some rows)) \<and>
             (fetch_at w sid tr i = Inl ResourceNotFoundException \<longrightarrow>
                  fst (wait_for_query_completion w sid e tr) = Inr None)))"
proof (rule conjI)
  show "isl (fst (wait_for_query_completion w sid e tr)) \<longleftrightarrow>
      failed_or_aborted w sid tr \<or> budget_exhausted w sid tr \<or> remote_call_failed w sid e tr"
  proof (cases "\<forall>j<max_retries. still_running w sid tr j")
    case True
    then have "isl (fst (wait_for_query_completion w sid e tr))"
      by (simp add: wait_exhausted)
    then show ?thesis using True by (simp add: budget_exhausted_def)
  next
    case False
    then obtain i where i: "i < max_retries" "\<forall>j<i. still_running w sid tr j"
        "\<not> still_running w sid tr i"
      using first_settled_exists[of max_retries "still_running w sid tr"] by blast
    have only: "k = i" if "\<forall>j<k. still_running w sid tr j" "\<not> still_running w sid tr k" for k
      using first_settled_unique[of k "still_running w sid tr" i] that i by blast
    have fa: "failed_or_aborted w sid tr \<longleftrightarrow>
        status_is w sid tr i FAILED \<or> status_is w sid tr i ABORTED"
      unfolding failed_or_aborted_def using i only status_is_not_running by blast
    have rc: "remote_call_failed w sid e tr \<longleftrightarrow>
        isl (status_at w sid tr i) \<or>
        (status_is w sid tr i FINISHED \<and> e \<and> isl (fetch_at w sid tr i) \<and>
         fetch_at w sid tr i \<noteq> Inl ResourceNotFoundException)"
      unfolding remote_call_failed_def using i only status_is_not_running by blast
    have "\<not> budget_exhausted w sid tr" using False by (simp add: budget_exhausted_def)
    then show ?thesis
      using settled_raises[OF i(2) i(3) i(1), of e] fa rc by blast
  qed
next
  show "\<forall>i<max_retries. (\<forall>j<i. still_running w sid tr j) \<and> status_is w sid tr i FINISHED \<longrightarrow>
      (\<not> e \<longrightarrow> fst (wait_for_query_completion w sid e tr) = Inr None) \<and>
      (e \<longrightarrow> (\<forall>rows. fetch_at w sid tr i = Inr rows \<longrightarrow>
                  fst (wait_for_query_completion w sid e tr) = Inr (Some rows)) \<and>
             (fetch_at w sid tr i = Inl ResourceNotFoundException \<longrightarrow>
                  fst (wait_for_query_completion w sid e tr) = Inr None))"
  proof (intro allI impI, elim conjE)
    fix i
    assume i: "i < max_retries" and run: "\<forall>j<i. still_running w sid tr j"
      and fin: "status_is w sid tr i FINISHED"
    have stop: "\<not> still_running w sid tr i" using fin by (rule status_is_not_running)
    show "(\<not> e \<longrightarrow> fst (wait_for_query_completion w sid e tr) = Inr None) \<and>
      (e \<longrightarrow> (\<forall>rows. fetch_at w sid tr i = Inr rows \<longrightarrow>
                  fst (wait_for_query_completion w sid e tr) = Inr (Some rows)) \<and>
             (fetch_at w sid tr i = Inl ResourceNotFoundException \<longrightarrow>
                  fst (wait_for_query_completion w sid e tr) = Inr None))"
      using fin unfolding wait_settled_at[OF run stop i]
      by (auto simp add: status_is_def split: sum.splits)
  qed
qed

lemma world_fetching_status: "status_at (world_fetching a) sid tr i = Inr \<lparr>Status = FINISHED, Error = None\<rparr>"
  by (simp add: status_at_def world_fetching_def)

lemma world_fetching_fetch: "fetch_at (world_fetching a) sid tr i = a"
  by (simp add: fetch_at_def world_fetching_def)

lemma world_fetching_finished: "status_is (world_fetching a) sid tr i FINISHED"
  "\<not> status_is (world_fetching a) sid tr i FAILED" "\<not> status_is (world_fetching a) sid tr i ABORTED"
  "\<not> still_running (world_fetching a) sid tr i"
  by (simp_all add: status_is_def still_running_def world_fetching_status)

lemma max_retries_pos: "0 < max_retries"
  by (simp add: max_retries_def)

lemma world_fetching_wait:
  "fst (wait_for_query_completion (world_fetching a) sid e tr) =
     (if e then (case a of Inr rows \<Rightarrow> Inr (Some rows)
                 | Inl x \<Rightarrow> if x = ResourceNotFoundException then Inr None else Inl x)
      else Inr None)"
  using wait_settled_at[of 0 "world_fetching a" sid tr, OF _ world_fetching_finished(4) max_retries_pos]
  by (simp add: world_fetching_status world_fetching_fetch)

text \<open>
  Claim C9 as stated fails: when the statement is \<^verbatim>\<open>FINISHED\<close> at the first poll and the
  fetch of its result raises an exception other than \<^verbatim>\<open>ResourceNotFoundException\<close>, the
  waiter raises, though no poll answered \<^verbatim>\<open>FAILED\<close> or \<^verbatim>\<open>ABORTED\<close> and the budget is
  not exhausted.
\<close>

theorem waiter_raises_counterexample:
  "isl (fst (wait_for_query_completion
              (world_fetching (Inl (OtherException ''InternalServerException''))) ''stmt'' True [])) \<and>
   \<not> failed_or_aborted (world_fetching (Inl (OtherException ''InternalServerException''))) ''stmt'' [] \<and>
   \<not> budget_exhausted (world_fetching (Inl (OtherException ''InternalServerException''))) ''stmt'' []"
proof -
  have "\<not> budget_exhausted (world_fetching (Inl (OtherException ''InternalServerException''))) ''stmt'' []"
    unfolding budget_exhausted_def using max_retries_pos world_fetching_finished(4) by blast
  then show ?thesis
    by (simp add: world_fetching_wait failed_or_aborted_def world_fetching_finished)
qed

theorem waiter_raises_exactly_witness:
  "0 < max_retries \<and>
   status_is (world_fetching (Inr [[LongValue 3]])) ''stmt'' [] 0 FINISHED \<and>
   fetch_at (world_fetching (Inr [[LongValue 3]])) ''stmt'' [] 0 = Inr [[LongValue 3]] \<and>
   fst (wait_for_query_completion (world_fetching (Inr [[LongValue 3]])) ''stmt'' True []) =
     Inr (Some [[LongValue 3]]) \<and>
   fst (wait_for_query_completion (world_fetching (Inr [[LongValue 3]])) ''stmt'' False []) = Inr None \<and>
   fst (wait_for_query_completion (world_fetching (Inl ResourceNotFoundException)) ''stmt'' True []) =
     Inr None \<and>
   remote_call_failed (world_fetching (Inl (OtherException ''InternalServerException''))) ''stmt'' True [] \<and>
   isl (fst (wait_for_query_completion
              (world_fetching (Inl (OtherException ''InternalServerException''))) ''stmt'' True []))"
proof -
  have rc: "remote_call_failed (world_fetching (Inl (OtherException ''InternalServerException''))) ''stmt'' True []"
    unfolding remote_call_failed_def
    by (rule exI[of _ 0]) (simp add: max_retries_pos world_fetching_finished world_fetching_fetch)
  show ?thesis
    using waiter_raises_exactly[of "world_fetching (Inr [[LongValue 3]])" "''stmt''" True "[]"]
      waiter_raises_exactly[of "world_fetching (Inr [[LongValue 3]])" "''stmt''" False "[]"]
      waiter_raises_exactly[of "world_fetching (Inl ResourceNotFoundException)" "''stmt''" True "[]"]
      waiter_raises_exactly[of "world_fetching (Inl (OtherException ''InternalServerException''))" "''stmt''" True "[]"]
      rc max_retries_pos
    by (simp add: world_fetching_finished world_fetching_fetch)
qed

section \<open>The run: proofs\<close>

lemma process_files_append:
  "process_files w b (xs @ ys) tr acc =
     (case process_files w b xs tr acc of (acc', tr') \<Rightarrow> process_files w b ys tr' acc')"
proof (induction xs arbitrary: tr acc)
  case Nil
  then show ?case by (cases acc) simp
next
  case (Cons x xs)
  obtain ps fs where acc: "acc = (ps, fs)" by (cases acc)
  show ?case
    by (cases "process_file w b x tr") (auto simp add: acc Cons.IH split: sum.splits)
qed

lemma process_files_lists:
  "process_files w b ks tr (ps, fs) = ((ps', fs'), tr') \<Longrightarrow>
   \<exists>ps2 fs2. ps' = ps @ ps2 \<and> fs' = fs @ fs2 \<and> mset ps2 + mset (map fst fs2) = mset ks"
proof (induction ks arbitrary: tr ps fs)
  case Nil
  then show ?case by simp
next
  case (Cons k ks)
  obtain res tr1 where pf: "process_file w b k tr = (res, tr1)" by (cases "process_file w b k tr")
  show ?case
  proof (cases res)
    case (Inl e)
    then have "process_files w b ks tr1 (ps, fs @ [(k, e)]) = ((ps', fs'), tr')"
      using Cons.prems pf by simp
    from Cons.IH[OF this] obtain ps2 fs2 where
      "ps' = ps @ ps2" "fs' = (fs @ [(k, e)]) @ fs2" "mset ps2 + mset (map fst fs2) = mset ks"
      by blast
    then have "ps' = ps @ ps2 \<and> fs' = fs @ ((k, e) # fs2) \<and>
        mset ps2 + mset (map fst ((k, e) # fs2)) = mset (k # ks)"
      by simp
    then show ?thesis by blast
  next
    case (Inr u)
    then have "process_files w b ks tr1 (ps @ [k], fs) = ((ps', fs'), tr')"
      using Cons.prems pf by simp
    from Cons.IH[OF this] obtain ps2 fs2 where
      "ps' = (ps @ [k]) @ ps2" "fs' = fs @ fs2" "mset ps2 + mset (map fst fs2) = mset ks"
      by blast
    then have "ps' = ps @ (k # ps2) \<and> fs' = fs @ fs2 \<and>
        mset (k # ps2) + mset (map fst fs2) = mset (k # ks)"
      by simp
    then show ?thesis by blast
  qed
qed

lemma wait_for_file_processing_distinct: "distinct (wait_for_file_processing env mw)"
  using wait_loop_distinct[of "[]" env mw 0 0 0]
  by (simp add: wait_for_file_processing_def wait_for_file_processing_run_def)

lemma partition_once:
  assumes m: "mset ps + mset ks = mset batch" and d: "distinct batch"
  shows "distinct (ps @ ks) \<and> (\<forall>key \<in> set batch. (key \<in> set ps) \<noteq> (key \<in> set ks))"
proof -
  have eq: "mset (ps @ ks) = mset batch" using m by simp
  then have dist: "distinct (ps @ ks)" using d by (metis mset_eq_imp_distinct_iff)
  have "set (ps @ ks) = set batch" using eq by (rule mset_eq_setD)
  then show ?thesis using dist by auto
qed

text \<open>
  Claim C1. A run answers with status 500 only when the event cannot be read, and then
  no file has been attempted. Otherwise it answers with the two lists: together they
  hold the files of the discovered batch, each file exactly once and in exactly one of
  the lists. Whenever the processing of a file raises, whatever the exception and the
  stage, the file is appended to the failure list with that exception, it is not in the
  success list, and the loop goes on with the files that follow.
\<close>

theorem per_file_isolation:
  "(\<forall>e. fst (lambda_handler event env w) = Response500 e \<longrightarrow>
      (event = None \<or> event = Some []) \<and> snd (lambda_handler event env w) = []) \<and>
   (\<forall>r rs. event = Some (r # rs) \<longrightarrow>
      (\<exists>processed failed.
         fst (lambda_handler event env w) = Response200 processed failed \<and>
         mset processed + mset (map fst failed) = mset (wait_for_file_processing env 300) \<and>
         distinct (processed @ map fst failed) \<and>
         (\<forall>key \<in> set (wait_for_file_processing env 300).
            (key \<in> set processed) \<noteq> (key \<in> set (map fst failed))) \<and>
         (\<forall>before key rest acc tr e tr'.
            wait_for_file_processing env 300 = before @ key # rest \<and>
            process_files w (bucket_name r) before [] ([], []) = (acc, tr) \<and>
            process_file w (bucket_name r) key tr = (Inl e, tr') \<longrightarrow>
            (key, e) \<in> set failed \<and> key \<notin> set processed \<and>
            process_files w (bucket_name r) (wait_for_file_processing env 300) [] ([], []) =
              process_files w (bucket_name r) rest tr' (fst acc, snd acc @ [(key, e)]))))"
proof (rule conjI)
  show "\<forall>e. fst (lambda_handler event env w) = Response500 e \<longrightarrow>
      (event = None \<or> event = Some []) \<and> snd (lambda_handler event env w) = []"
    by (auto simp add: lambda_handler_def split: option.splits list.splits prod.splits)
next
  show "\<forall>r rs. event = Some (r # rs) \<longrightarrow>
      (\<exists>processed failed.
         fst (lambda_handler event env w) = Response200 processed failed \<and>
         mset processed + mset (map fst failed) = mset (wait_for_file_processing env 300) \<and>
         distinct (processed @ map fst failed) \<and>
         (\<forall>key \<in> set (wait_for_file_processing env 300).
            (key \<in> set processed) \<noteq> (key \<in> set (map fst failed))) \<and>
         (\<forall>before key rest acc tr e tr'.
            wait_for_file_processing env 300 = before @ key # rest \<and>
            process_files w (bucket_name r) before [] ([], []) = (acc, tr) \<and>
            process_file w (bucket_name r) key tr = (Inl e, tr') \<longrightarrow>
            (key, e) \<in> set failed \<and> key \<notin> set processed \<and>
            process_files w (bucket_name r) (wait_for_file_processing env 300) [] ([], []) =
              process_files w (bucket_name r) rest tr' (fst acc, snd acc @ [(key, e)])))"
  proof (intro allI impI)
  fix r rs
  assume ev: "event = Some (r # rs)"
  let ?batch = "wait_for_file_processing env 300"
  let ?b = "bucket_name r"
  obtain ps fs T where run: "process_files w ?b ?batch [] ([], []) = ((ps, fs), T)"
    by (metis surj_pair)
  have resp: "fst (lambda_handler event env w) = Response200 ps fs"
    using ev run by (simp add: lambda_handler_def)
  from process_files_lists[OF run]
  have m: "mset ps + mset (map fst fs) = mset ?batch" by simp
  note once = partition_once[OF m wait_for_file_processing_distinct]
  have rec: "(key, e) \<in> set fs \<and> key \<notin> set ps \<and>
            process_files w ?b ?batch [] ([], []) =
              process_files w ?b rest tr' (fst acc, snd acc @ [(key, e)])"
    if split: "?batch = before @ key # rest"
      and pre: "process_files w ?b before [] ([], []) = (acc, tr)"
      and err: "process_file w ?b key tr = (Inl e, tr')"
    for before key rest acc tr e tr'
  proof -
    obtain ps0 fs0 where acc: "acc = (ps0, fs0)" by (cases acc)
    have step: "process_files w ?b ?batch [] ([], []) =
        process_files w ?b rest tr' (ps0, fs0 @ [(key, e)])"
      unfolding split process_files_append pre using err by (simp add: acc)
    then have "process_files w ?b rest tr' (ps0, fs0 @ [(key, e)]) = ((ps, fs), T)"
      using run by simp
    from process_files_lists[OF this] have inf: "(key, e) \<in> set fs" by auto
    then have "key \<in> set (map fst fs)" by force
    moreover have "key \<in> set ?batch" using split by simp
    ultimately have "key \<notin> set ps" using once by blast
    then show ?thesis using inf step by (simp add: acc)
  qed
  show "\<exists>processed failed.
         fst (lambda_handler event env w) = Response200 processed failed \<and>
         mset processed + mset (map fst failed) = mset ?batch \<and>
         distinct (processed @ map fst failed) \<and>
         (\<forall>key \<in> set ?batch. (key \<in> set processed) \<noteq> (key \<in> set (map fst failed))) \<and>
         (\<forall>before key rest acc tr e tr'.
            ?batch = before @ key # rest \<and>
            process_files w ?b before [] ([], []) = (acc, tr) \<and>
            process_file w ?b key tr = (Inl e, tr') \<longrightarrow>
            (key, e) \<in> set failed \<and> key \<notin> set processed \<and>
            process_files w ?b ?batch [] ([], []) =
              process_files w ?b rest tr' (fst acc, snd acc @ [(key, e)]))"
    using resp m once rec by blast
  qed
qed

section \<open>The example worlds evaluated\<close>

lemma max_retries_Suc: "max_retries = Suc 59"
  by (simp add: max_retries_def)

lemma world_fetching_target: "redshift_target (world_fetching a) = Inr (''configured'', ''configured'')"
  by (simp add: redshift_target_def world_fetching_def)

lemma world_fetching_fields:
  "get_object (world_fetching a) tr = Inr ''id,Total''"
  "read_csv (world_fetching a) content = Inr sample_df"
  "execute_statement (world_fetching a) tr = Inr ''stmt''"
  "describe_statement (world_fetching a) tr = Inr \<lparr>Status = FINISHED, Error = None\<rparr>"
  "get_statement_result (world_fetching a) tr = a"
  "copy_object (world_fetching a) tr = Inr ()"
  "delete_object (world_fetching a) tr = Inr ()"
  by (simp_all add: world_fetching_def)

lemma world_fetching_wait_run:
  "wait_for_query_completion (world_fetching a) sid e tr =
     (if e then
        (case a of
           Inr rows \<Rightarrow> (Inr (Some rows), tr @ [DescribeStatement sid, GetStatementResult sid])
         | Inl x \<Rightarrow> if x = ResourceNotFoundException
                    then (Inr None, tr @ [DescribeStatement sid, GetStatementResult sid])
                    else (Inl x, tr @ [DescribeStatement sid, GetStatementResult sid]))
      else (Inr None, tr @ [DescribeStatement sid]))"
  unfolding wait_for_query_completion_def max_retries_Suc poll_statement.simps
  by (simp add: world_fetching_fields split: sum.splits)

lemma steady_files: "remdups (list_processed_files (fst (steady n))) = [''processed/sales.csv'']"
  by (simp add: steady_def list_processed_files_def endswith_def lower_def
      lower_char_def ascii_uppercase_def ascii_lowercase_def)

lemma steady_batch: "wait_for_file_processing steady 300 = [''processed/sales.csv'']"
proof -
  obtain ex k fs where loop: "wait_loop steady 300 0 0 [] 0 = (ex, k, fs)"
    by (metis prod_cases3)
  have sound:
    "(ex = StableExit \<longrightarrow>
        (\<exists>n. k = Suc n \<and> quiescent steady n \<and> (\<forall>m<n. \<not> quiescent steady m) \<and>
             poll_time steady n < 300 \<and> fs = remdups (list_processed_files (fst (steady n))))) \<and>
     (ex = MaxWaitExit \<longrightarrow>
        300 \<le> poll_time steady k \<and> (\<forall>m<k. \<not> quiescent steady m \<and> poll_time steady m < 300) \<and>
        set fs = previous_listing steady k)"
    by (rule wait_loop_sound[OF _ _ _ _ _ loop])
       (simp_all add: previous_listing_def poll_time_def)
  have "ex \<noteq> MaxWaitExit"
  proof
    assume mx: "ex = MaxWaitExit"
    then have "300 \<le> k * 5" using sound by (simp add: steady_poll_time)
    then have "12 < k" by simp
    then have "\<not> quiescent steady 12" using sound mx by blast
    then show False by (simp add: steady_quiescent)
  qed
  then have "ex = StableExit" by (cases ex) simp_all
  then have "fs = [''processed/sales.csv'']" using sound by (auto simp add: steady_files)
  then show ?thesis
    using loop by (simp add: wait_for_file_processing_def wait_for_file_processing_run_def)
qed

lemma sales_table: "table_name_of ''processed/sales.csv'' = ''sales''"
  by (simp add: table_name_of_def basename_def splitext_root_def clean_column_name_ascii
      lower_def char_class_defs)

lemma sales_completed: "replace_processed ''processed/sales.csv'' = ''completed/sales.csv''"
  by (simp add: replace_processed.simps)

lemma sample_columns: "column_definitions sample_df = [(''id'', ''BIGINT''), (''total'', ''DECIMAL(18,2)'')]"
  by (simp add: column_definitions_def sample_df_def clean_column_name_ascii lower_def char_class_defs
      detect_data_type_def detect_data_type_body_def count_present_def)

lemmas world_fetching_calls =
  world_fetching_fields world_fetching_wait_run world_fetching_target
  check_table_exists_def check_table_exists_body_def run_table_exists_query_def
  create_table_def run_create_table_def ensure_table_def verify_row_count_def load_data_to_redshift_def
  move_to_completed_def load_and_move_def process_file_def sales_table sales_completed

lemma process_sales_loaded:
  "process_file (world_fetching (Inr [[LongValue 3]])) ''bucket'' ''processed/sales.csv'' [] =
     (Inr (),
      [GetObject ''bucket'' ''processed/sales.csv'',
       ExecuteStatement (TableExistsQuery ''sales''),
       DescribeStatement ''stmt'', GetStatementResult ''stmt'',
       ExecuteStatement (CopyCommand ''sales'' ''bucket'' ''processed/sales.csv''),
       DescribeStatement ''stmt'',
       ExecuteStatement (CountRows ''sales''),
       DescribeStatement ''stmt'', GetStatementResult ''stmt'',
       CopyObject ''bucket'' ''processed/sales.csv'' ''completed/sales.csv'',
       DeleteObject ''bucket'' ''processed/sales.csv''])"
  by (simp add: world_fetching_calls)

lemma process_sales_empty:
  "process_file (world_fetching (Inr [[LongValue 0]])) ''bucket'' ''processed/sales.csv'' [] =
     (Inl (NoDataLoaded ''sales''),
      [GetObject ''bucket'' ''processed/sales.csv'',
       ExecuteStatement (TableExistsQuery ''sales''),
       DescribeStatement ''stmt'', GetStatementResult ''stmt'',
       ExecuteStatement (CreateTableIfNotExists ''sales'' (column_definitions sample_df)),
       DescribeStatement ''stmt'',
       ExecuteStatement (CopyCommand ''sales'' ''bucket'' ''processed/sales.csv''),
       DescribeStatement ''stmt'',
       ExecuteStatement (CountRows ''sales''),
       DescribeStatement ''stmt'', GetStatementResult ''stmt''])"
  by (simp add: world_fetching_calls)

theorem per_file_isolation_witness:
  "wait_for_file_processing steady 300 = [] @ ''processed/sales.csv'' # [] \<and>
   fst (process_file (world_fetching (Inr [[LongValue 0]])) ''bucket'' ''processed/sales.csv'' []) =
     Inl (NoDataLoaded ''sales'') \<and>
   (\<exists>processed failed.
      fst (lambda_handler (Some [\<lparr>bucket_name = ''bucket'', object_key = ''raw/sales.xlsx''\<rparr>]) steady
             (world_fetching (Inr [[LongValue 0]]))) = Response200 processed failed \<and>
      (''processed/sales.csv'', NoDataLoaded ''sales'') \<in> set failed \<and>
      ''processed/sales.csv'' \<notin> set processed)"
proof -
  let ?w = "world_fetching (Inr [[LongValue 0]])"
  let ?r = "\<lparr>bucket_name = ''bucket'', object_key = ''raw/sales.xlsx''\<rparr>"
  let ?k = "''processed/sales.csv''"
  obtain tr' where pf: "process_file ?w (bucket_name ?r) ?k [] = (Inl (NoDataLoaded ''sales''), tr')"
    using process_sales_empty by simp
  have batch: "wait_for_file_processing steady 300 = [] @ ?k # []"
    by (simp add: steady_batch)
  have start: "process_files ?w (bucket_name ?r) [] [] ([], []) = (([], []), [])" by simp
  note inst = conjunct2[OF per_file_isolation[of "Some [?r]" steady ?w], rule_format, OF refl]
  from inst obtain processed failed where
    resp: "fst (lambda_handler (Some [?r]) steady ?w) = Response200 processed failed" and
    rec: "\<forall>before key rest acc tr e tr'.
            wait_for_file_processing steady 300 = before @ key # rest \<and>
            process_files ?w (bucket_name ?r) before [] ([], []) = (acc, tr) \<and>
            process_file ?w (bucket_name ?r) key tr = (Inl e, tr') \<longrightarrow>
            (key, e) \<in> set failed \<and> key \<notin> set processed \<and>
            process_files ?w (bucket_name ?r) (wait_for_file_processing steady 300) [] ([], []) =
              process_files ?w (bucket_name ?r) rest tr' (fst acc, snd acc @ [(key, e)])"
    by (elim exE conjE)
  note rec0 = rec[rule_format, OF conjI[OF batch conjI[OF start pf]]]
  have f: "fst (process_file ?w ''bucket'' ?k []) = Inl (NoDataLoaded ''sales'')"
    by (simp add: process_sales_empty)
  show ?thesis
    by (intro conjI exI[of _ processed] exI[of _ failed])
       (rule batch, rule f, rule resp, rule conjunct1[OF rec0], rule conjunct1[OF conjunct2[OF rec0]])
qed

section \<open>Histories: only a relocation adds a copy or a delete\<close>

lemma replicate_Suc_snoc: "tr @ replicate (Suc i) x = (tr @ replicate i x) @ [x]"
  by (simp add: replicate_append_same)

lemma wait_finished_run:
  assumes run: "\<forall>j<i. still_running w sid tr j" and fin: "status_is w sid tr i FINISHED"
    and i: "i < max_retries"
  shows "wait_for_query_completion w sid False tr =
           (Inr None, tr @ replicate (Suc i) (DescribeStatement sid))"
    and "fetch_at w sid tr i = Inr rows \<Longrightarrow>
         wait_for_query_completion w sid True tr =
           (Inr (Some rows),
            tr @ replicate (Suc i) (DescribeStatement sid) @ [GetStatementResult sid])"
proof -
  obtain n where n: "max_retries = i + Suc n"
    using i by (metis less_imp_Suc_add add_Suc_right)
  let ?D = "DescribeStatement sid"
  let ?tr = "tr @ replicate i ?D"
  have skip: "wait_for_query_completion w sid e tr = poll_statement w sid e (Suc n) ?tr" for e
    unfolding wait_for_query_completion_def n by (rule poll_statement_skip[OF run])
  obtain r where r: "describe_statement w (?tr @ [?D]) = Inr r" "Status r = FINISHED"
    using fin unfolding status_is_def status_at_def replicate_Suc_snoc
    by (auto split: sum.splits)
  show "wait_for_query_completion w sid False tr = (Inr None, tr @ replicate (Suc i) ?D)"
    unfolding skip replicate_Suc_snoc using r by simp
  show "wait_for_query_completion w sid True tr =
          (Inr (Some rows), tr @ replicate (Suc i) ?D @ [GetStatementResult sid])"
    if "fetch_at w sid tr i = Inr rows"
  proof -
    have eq: "tr @ replicate (Suc i) ?D @ [GetStatementResult sid] =
        ?tr @ [?D, GetStatementResult sid]"
      by (simp add: replicate_app_Cons_same)
    have "get_statement_result w (?tr @ [?D, GetStatementResult sid]) = Inr rows"
      using that unfolding fetch_at_def eq .
    then show ?thesis
      unfolding skip eq using r by simp
  qed
qed

lemma poll_statement_trace:
  "\<exists>ext. snd (poll_statement w sid e n tr) = tr @ ext \<and> (\<forall>ev \<in> set ext. \<not> is_move ev)"
proof (induction n arbitrary: tr)
  case 0
  then show ?case by simp
next
  case (Suc n)
  let ?D = "DescribeStatement sid"
  show ?case
  proof (cases "still_running w sid tr 0")
    case True
    obtain ext where "snd (poll_statement w sid e n (tr @ [?D])) = (tr @ [?D]) @ ext"
        "\<forall>ev \<in> set ext. \<not> is_move ev"
      using Suc.IH[of "tr @ [?D]"] by blast
    then have "snd (poll_statement w sid e (Suc n) tr) = tr @ (?D # ext) \<and>
        (\<forall>ev \<in> set (?D # ext). \<not> is_move ev)"
      using poll_statement_running[OF True, of e n] by simp
    then show ?thesis by blast
  next
    case False
    then have "snd (poll_statement w sid e (Suc n) tr) = tr @ [?D] \<or>
        snd (poll_statement w sid e (Suc n) tr) = tr @ [?D, GetStatementResult sid]"
      by (auto simp add: still_running_def status_at_0 split: sum.splits)
    then show ?thesis
    proof
      assume "snd (poll_statement w sid e (Suc n) tr) = tr @ [?D]"
      then have "snd (poll_statement w sid e (Suc n) tr) = tr @ [?D] \<and>
          (\<forall>ev \<in> set [?D]. \<not> is_move ev)" by simp
      then show ?thesis by blast
    next
      assume "snd (poll_statement w sid e (Suc n) tr) = tr @ [?D, GetStatementResult sid]"
      then have "snd (poll_statement w sid e (Suc n) tr) = tr @ [?D, GetStatementResult sid] \<and>
          (\<forall>ev \<in> set [?D, GetStatementResult sid]. \<not> is_move ev)" by simp
      then show ?thesis by blast
    qed
  qed
qed

lemma wait_trace:
  assumes "wait_for_query_completion w sid e tr = (res, tr')"
  obtains ext where "tr' = tr @ ext" "\<forall>ev \<in> set ext. \<not> is_move ev"
  using poll_statement_trace[of w sid e max_retries tr] assms
  by (auto simp add: wait_for_query_completion_def)

lemma statement_trace:
  assumes "(case execute_statement w (tr @ [ExecuteStatement q]) of
              Inl x \<Rightarrow> (Inl x, tr @ [ExecuteStatement q])
            | Inr sid \<Rightarrow> k (wait_for_query_completion w sid e (tr @ [ExecuteStatement q]))) = (res, tr')"
    and "\<And>r t. snd (k (r, t)) = t"
  obtains ext where "tr' = tr @ ext" "\<forall>ev \<in> set ext. \<not> is_move ev"
proof (cases "execute_statement w (tr @ [ExecuteStatement q])")
  case (Inl x)
  then have "tr' = tr @ [ExecuteStatement q]" using assms(1) by simp
  moreover have "\<forall>ev \<in> set [ExecuteStatement q]. \<not> is_move ev" by simp
  ultimately show ?thesis using that by blast
next
  case (Inr sid)
  obtain r t where wt: "wait_for_query_completion w sid e (tr @ [ExecuteStatement q]) = (r, t)"
    by (metis surj_pair)
  then have "tr' = t" using assms Inr by (metis old.sum.simps(6) snd_conv)
  moreover obtain ext where "t = (tr @ [ExecuteStatement q]) @ ext" "\<forall>ev \<in> set ext. \<not> is_move ev"
    using wt by (rule wait_trace)
  ultimately have "tr' = tr @ (ExecuteStatement q # ext)"
      "\<forall>ev \<in> set (ExecuteStatement q # ext). \<not> is_move ev"
    by simp_all
  then show ?thesis using that by blast
qed

lemma run_table_exists_query_trace:
  obtains ext where "snd (run_table_exists_query w table tr) = tr @ ext"
    "\<forall>ev \<in> set ext. \<not> is_move ev"
proof -
  obtain res tr' where run: "run_table_exists_query w table tr = (res, tr')" by (metis surj_pair)
  have "\<And>r t. snd (case (r, t) of
             (Inl e, tr') \<Rightarrow> (Inl e, tr')
           | (Inr None, tr') \<Rightarrow> (Inr False, tr')
           | (Inr (Some records), tr') \<Rightarrow>
               if records \<noteq> [] then
                 (case first_long_value records of
                    Inl e \<Rightarrow> (Inl e, tr')
                  | Inr table_count \<Rightarrow> (Inr (table_count > 0), tr'))
               else (Inr False, tr')) = t"
    by (auto split: sum.splits option.splits)
  from statement_trace[OF run[unfolded run_table_exists_query_def] this]
  obtain ext where ext: "tr' = tr @ ext" "\<forall>ev \<in> set ext. \<not> is_move ev" by blast
  show ?thesis using that[of ext] run ext by simp
qed

lemma check_table_exists_body_trace:
  obtains ext where "snd (check_table_exists_body w table tr) = tr @ ext"
    "\<forall>ev \<in> set ext. \<not> is_move ev"
proof (cases "redshift_target w")
  case (Inl e)
  then have "snd (check_table_exists_body w table tr) = tr @ []"
    by (simp add: check_table_exists_body_def)
  then show ?thesis using that[of "[]"] by simp
next
  case (Inr target)
  then have "check_table_exists_body w table tr = run_table_exists_query w table tr"
    by (simp add: check_table_exists_body_def)
  then show ?thesis using run_table_exists_query_trace[of w table tr] that by metis
qed

lemma check_table_exists_trace:
  obtains ext where "snd (check_table_exists w table tr) = tr @ ext"
    "\<forall>ev \<in> set ext. \<not> is_move ev"
proof -
  have "snd (check_table_exists w table tr) = snd (check_table_exists_body w table tr)"
    by (simp add: check_table_exists_def split: prod.splits sum.splits)
  then show ?thesis using check_table_exists_body_trace[of w table tr] that by metis
qed

lemma run_create_table_trace:
  obtains ext where
    "snd (run_create_table w table df tr) =
       tr @ ExecuteStatement (CreateTableIfNotExists table (column_definitions df)) # ext"
    "\<forall>ev \<in> set ext. \<not> is_move ev"
proof (cases "execute_statement w
    (tr @ [ExecuteStatement (CreateTableIfNotExists table (column_definitions df))])")
  case (Inl x)
  then have "snd (run_create_table w table df tr) =
      tr @ ExecuteStatement (CreateTableIfNotExists table (column_definitions df)) # []"
    by (simp add: run_create_table_def)
  then show ?thesis using that by fastforce
next
  case (Inr sid)
  let ?q = "ExecuteStatement (CreateTableIfNotExists table (column_definitions df))"
  obtain r t where wt: "wait_for_query_completion w sid False (tr @ [?q]) = (r, t)"
    by (metis surj_pair)
  obtain ext where ext: "t = (tr @ [?q]) @ ext" "\<forall>ev \<in> set ext. \<not> is_move ev"
    using wt by (rule wait_trace)
  have "snd (run_create_table w table df tr) = t"
    using Inr wt by (simp add: run_create_table_def split: sum.splits)
  then have "snd (run_create_table w table df tr) = tr @ ?q # ext" using ext(1) by simp
  then show ?thesis using that ext(2) by blast
qed

lemma create_table_trace:
  obtains ext where "snd (create_table w table df tr) = tr @ ext"
    "\<forall>ev \<in> set ext. \<not> is_move ev"
proof (cases "redshift_target w")
  case (Inl e)
  then have "snd (create_table w table df tr) = tr @ []"
    by (simp add: create_table_def)
  then show ?thesis using that[of "[]"] by simp
next
  case (Inr target)
  let ?q = "ExecuteStatement (CreateTableIfNotExists table (column_definitions df))"
  obtain ext where ext: "snd (run_create_table w table df tr) = tr @ ?q # ext"
      "\<forall>ev \<in> set ext. \<not> is_move ev"
    by (rule run_create_table_trace)
  have "snd (create_table w table df tr) = tr @ (?q # ext)"
    using Inr ext(1) by (simp add: create_table_def)
  moreover have "\<forall>ev \<in> set (?q # ext). \<not> is_move ev" using ext(2) by simp
  ultimately show ?thesis using that by blast
qed

lemma ensure_table_trace:
  obtains ext where "snd (ensure_table w table df tr) = tr @ ext"
    "\<forall>ev \<in> set ext. \<not> is_move ev"
proof -
  obtain ex t where c: "check_table_exists w table tr = (ex, t)" by (metis surj_pair)
  obtain e1 where e1: "t = tr @ e1" "\<forall>ev \<in> set e1. \<not> is_move ev"
    using check_table_exists_trace[of w table tr] c by (metis snd_conv)
  show ?thesis
  proof (cases ex)
    case True
    then have "snd (ensure_table w table df tr) = tr @ e1"
      using c e1(1) by (simp add: ensure_table_def)
    then show ?thesis using that e1(2) by blast
  next
    case False
    obtain e2 where e2: "snd (create_table w table df t) = t @ e2"
        "\<forall>ev \<in> set e2. \<not> is_move ev"
      by (rule create_table_trace)
    have "snd (ensure_table w table df tr) = tr @ (e1 @ e2)"
      using c False e1(1) e2(1) by (simp add: ensure_table_def)
    moreover have "\<forall>ev \<in> set (e1 @ e2). \<not> is_move ev"
      using e1(2) e2(2) by auto
    ultimately show ?thesis using that by blast
  qed
qed

lemma verify_row_count_trace:
  obtains ext where "snd (verify_row_count w table tr) = tr @ ext"
    "\<forall>ev \<in> set ext. \<not> is_move ev"
proof -
  obtain res tr' where run: "verify_row_count w table tr = (res, tr')" by (metis surj_pair)
  have "\<And>r t. snd (case (r, t) of
             (Inl e, tr') \<Rightarrow> (Inl e, tr')
           | (Inr None, tr') \<Rightarrow> (Inl CouldNotVerify, tr')
           | (Inr (Some records), tr') \<Rightarrow>
               if records \<noteq> [] then
                 (case first_long_value records of
                    Inl e \<Rightarrow> (Inl e, tr')
                  | Inr row_count \<Rightarrow>
                      if row_count = 0 then (Inl (NoDataLoaded table), tr')
                      else (Inr (), tr'))
               else (Inl CouldNotVerify, tr')) = t"
    by (auto split: sum.splits option.splits)
  from statement_trace[OF run[unfolded verify_row_count_def] this]
  obtain ext where ext: "tr' = tr @ ext" "\<forall>ev \<in> set ext. \<not> is_move ev" by blast
  show ?thesis using that[of ext] run ext by simp
qed

lemma load_data_to_redshift_trace:
  obtains ext where "snd (load_data_to_redshift w table bucket key tr) = tr @ ext"
    "\<forall>ev \<in> set ext. \<not> is_move ev"
proof (cases "execute_statement w (tr @ [ExecuteStatement (CopyCommand table bucket key)])")
  case (Inl x)
  then have "snd (load_data_to_redshift w table bucket key tr) =
      tr @ [ExecuteStatement (CopyCommand table bucket key)]"
    by (simp add: load_data_to_redshift_def)
  then show ?thesis using that by fastforce
next
  case (Inr sid)
  let ?q = "ExecuteStatement (CopyCommand table bucket key)"
  obtain r t where wt: "wait_for_query_completion w sid False (tr @ [?q]) = (r, t)"
    by (metis surj_pair)
  obtain e1 where e1: "t = (tr @ [?q]) @ e1" "\<forall>ev \<in> set e1. \<not> is_move ev"
    using wt by (rule wait_trace)
  show ?thesis
  proof (cases r)
    case (Inl x)
    then have "snd (load_data_to_redshift w table bucket key tr) = tr @ (?q # e1)"
      using Inr wt e1(1) by (simp add: load_data_to_redshift_def)
    moreover have "\<forall>ev \<in> set (?q # e1). \<not> is_move ev" using e1(2) by simp
    ultimately show ?thesis using that by blast
  next
    case (Inr res)
    obtain e2 where e2: "snd (verify_row_count w table t) = t @ e2"
        "\<forall>ev \<in> set e2. \<not> is_move ev"
      by (rule verify_row_count_trace)
    have "snd (load_data_to_redshift w table bucket key tr) = tr @ (?q # e1 @ e2)"
      using \<open>execute_statement w (tr @ [?q]) = Inr sid\<close> wt Inr e1(1) e2(1)
      by (simp add: load_data_to_redshift_def)
    moreover have "\<forall>ev \<in> set (?q # e1 @ e2). \<not> is_move ev" using e1(2) e2(2) by auto
    ultimately show ?thesis using that by blast
  qed
qed

lemma poll_statement_rows:
  "poll_statement w sid e n tr = (Inr (Some rows), t) \<Longrightarrow> get_statement_result w t = Inr rows"
proof (induction n arbitrary: tr)
  case 0
  then show ?case by simp
next
  case (Suc n)
  show ?case
  proof (cases "still_running w sid tr 0")
    case True
    then show ?thesis using Suc.prems Suc.IH by (simp only: poll_statement_running)
  next
    case False
    then show ?thesis using Suc.prems
      by (auto simp add: still_running_def status_at_0 split: sum.splits if_splits)
  qed
qed

lemma load_verified_count:
  assumes "load_data_to_redshift w table bucket key t0 = (Inr (), t)"
  shows "row_count_positive w t"
proof -
  let ?q = "ExecuteStatement (CopyCommand table bucket key)"
  obtain sid where sid: "execute_statement w (t0 @ [?q]) = Inr sid"
    using assms by (cases "execute_statement w (t0 @ [?q])") (simp_all add: load_data_to_redshift_def)
  obtain r t1 where wt: "wait_for_query_completion w sid False (t0 @ [?q]) = (r, t1)"
    by (metis surj_pair)
  then have v: "verify_row_count w table t1 = (Inr (), t)"
    using assms sid by (cases r) (simp_all add: load_data_to_redshift_def)
  let ?c = "ExecuteStatement (CountRows table)"
  obtain vid where vid: "execute_statement w (t1 @ [?c]) = Inr vid"
    using v by (cases "execute_statement w (t1 @ [?c])") (simp_all add: verify_row_count_def)
  obtain r2 t2 where w2: "wait_for_query_completion w vid True (t1 @ [?c]) = (r2, t2)"
    by (metis surj_pair)
  then obtain rows where rows: "r2 = Inr (Some rows)" "t2 = t" "rows \<noteq> []"
      "\<exists>n. first_long_value rows = Inr n \<and> n \<noteq> 0"
    using v vid
    by (auto simp add: verify_row_count_def split: sum.splits option.splits if_splits)
  have "get_statement_result w t = Inr rows"
    using w2 rows(1,2) poll_statement_rows[of w vid True max_retries "t1 @ [?c]" rows t]
    by (simp add: wait_for_query_completion_def)
  then show ?thesis using rows(4) by (auto simp add: row_count_positive_def)
qed

lemma move_to_completed_cases:
  "(isl (copy_object w (tr @ [CopyObject b k (replace_processed k)])) \<and>
      isl (fst (move_to_completed w b k tr)) \<and>
      snd (move_to_completed w b k tr) = tr @ [CopyObject b k (replace_processed k)]) \<or>
   (copy_object w (tr @ [CopyObject b k (replace_processed k)]) = Inr () \<and>
      snd (move_to_completed w b k tr) =
        tr @ [CopyObject b k (replace_processed k), DeleteObject b k])"
  by (auto simp add: move_to_completed_def split: sum.splits)

lemma load_and_move_shape:
  obtains mid where "\<forall>ev \<in> set mid. \<not> is_move ev"
    "(isl (fst (load_and_move w b k tr)) \<and> snd (load_and_move w b k tr) = tr @ mid) \<or>
     (load_verified w b k (tr @ mid) \<and>
      (snd (load_and_move w b k tr) = tr @ mid @ [CopyObject b k (replace_processed k)] \<or>
       copy_object w (tr @ mid @ [CopyObject b k (replace_processed k)]) = Inr () \<and>
       snd (load_and_move w b k tr) =
         tr @ mid @ [CopyObject b k (replace_processed k), DeleteObject b k]))"
proof -
  obtain res t where ld: "load_data_to_redshift w (table_name_of k) b k tr = (res, t)"
    by (metis surj_pair)
  obtain mid where mid: "t = tr @ mid" "\<forall>ev \<in> set mid. \<not> is_move ev"
    using load_data_to_redshift_trace[of w "table_name_of k" b k tr] ld by (metis snd_conv)
  show ?thesis
  proof (cases res)
    case (Inl e)
    then have "isl (fst (load_and_move w b k tr)) \<and> snd (load_and_move w b k tr) = tr @ mid"
      using ld mid(1) by (simp add: load_and_move_def)
    then show ?thesis using that[of mid] mid(2) by blast
  next
    case (Inr u)
    then have ok: "load_data_to_redshift w (table_name_of k) b k tr = (Inr (), tr @ mid)"
      using ld mid(1) by simp
    then have lv: "load_verified w b k (tr @ mid)"
      using load_verified_count[OF ok] by (auto simp add: load_verified_def)
    have lm: "load_and_move w b k tr = move_to_completed w b k (tr @ mid)"
      using ok by (simp add: load_and_move_def)
    have "snd (load_and_move w b k tr) = tr @ mid @ [CopyObject b k (replace_processed k)] \<or>
       copy_object w (tr @ mid @ [CopyObject b k (replace_processed k)]) = Inr () \<and>
       snd (load_and_move w b k tr) =
         tr @ mid @ [CopyObject b k (replace_processed k), DeleteObject b k]"
      using move_to_completed_cases[of w "tr @ mid" b k] unfolding lm by auto
    then show ?thesis using that[of mid] mid(2) lv by blast
  qed
qed

lemma process_file_shape:
  obtains mid where "\<forall>ev \<in> set mid. \<not> is_move ev"
    "(isl (fst (process_file w b k tr)) \<and> snd (process_file w b k tr) = tr @ mid) \<or>
     (load_verified w b k (tr @ mid) \<and>
      (snd (process_file w b k tr) = tr @ mid @ [CopyObject b k (replace_processed k)] \<or>
       copy_object w (tr @ mid @ [CopyObject b k (replace_processed k)]) = Inr () \<and>
       snd (process_file w b k tr) =
         tr @ mid @ [CopyObject b k (replace_processed k), DeleteObject b k]))"
proof -
  let ?g = "GetObject b k"
  note shape = that
  have early: ?thesis
    if "isl (fst (process_file w b k tr))" "snd (process_file w b k tr) = tr @ [?g]"
    using that shape[of "[?g]"] by simp
  show ?thesis
  proof (cases "get_object w (tr @ [?g])")
    case (Inl e)
    then show ?thesis using early by (simp add: process_file_def)
  next
    case content: (Inr csv_content)
    show ?thesis
    proof (cases "read_csv w csv_content")
      case (Inl e)
      then show ?thesis using early content by (simp add: process_file_def)
    next
      case df: (Inr df)
      obtain res t where en: "ensure_table w (table_name_of k) df (tr @ [?g]) = (res, t)"
        by (metis surj_pair)
      obtain e1 where e1: "t = (tr @ [?g]) @ e1" "\<forall>ev \<in> set e1. \<not> is_move ev"
        using ensure_table_trace[of w "table_name_of k" df "tr @ [?g]"] en by (metis snd_conv)
      show ?thesis
      proof (cases res)
        case (Inl e)
        then have "isl (fst (process_file w b k tr)) \<and>
            snd (process_file w b k tr) = tr @ (?g # e1)"
          using content df en e1(1) by (simp add: process_file_def)
        moreover have "\<forall>ev \<in> set (?g # e1). \<not> is_move ev" using e1(2) by simp
        ultimately show ?thesis using that[of "?g # e1"] by blast
      next
        case (Inr u)
        then have pf: "process_file w b k tr = load_and_move w b k t"
          using content df en by (simp add: process_file_def)
        obtain e2 where e2: "\<forall>ev \<in> set e2. \<not> is_move ev"
          "(isl (fst (load_and_move w b k t)) \<and> snd (load_and_move w b k t) = t @ e2) \<or>
           (load_verified w b k (t @ e2) \<and>
            (snd (load_and_move w b k t) = t @ e2 @ [CopyObject b k (replace_processed k)] \<or>
             copy_object w (t @ e2 @ [CopyObject b k (replace_processed k)]) = Inr () \<and>
             snd (load_and_move w b k t) =
               t @ e2 @ [CopyObject b k (replace_processed k), DeleteObject b k]))"
          by (rule load_and_move_shape)
        have t: "t @ e2 = tr @ (?g # e1 @ e2)" using e1(1) by simp
        have nm: "\<forall>ev \<in> set (?g # e1 @ e2). \<not> is_move ev" using e1(2) e2(1) by auto
        have "(isl (fst (process_file w b k tr)) \<and>
                snd (process_file w b k tr) = tr @ (?g # e1 @ e2)) \<or>
           (load_verified w b k (tr @ (?g # e1 @ e2)) \<and>
            (snd (process_file w b k tr) =
               tr @ (?g # e1 @ e2) @ [CopyObject b k (replace_processed k)] \<or>
             copy_object w (tr @ (?g # e1 @ e2) @ [CopyObject b k (replace_processed k)]) = Inr () \<and>
             snd (process_file w b k tr) =
               tr @ (?g # e1 @ e2) @ [CopyObject b k (replace_processed k), DeleteObject b k]))"
          using e2(2) unfolding pf t[symmetric] append_assoc[symmetric] by simp
        then show ?thesis using that[of "?g # e1 @ e2"] nm by blast
      qed
    qed
  qed
qed

lemma move_allowed_other: "\<not> is_move (T ! i) \<Longrightarrow> move_allowed w b T i"
  by (cases "T ! i") (simp_all add: move_allowed_def)

lemma move_allowed_prefix:
  assumes "i < length T"
  shows "move_allowed w b (T @ ext) i = move_allowed w b T i"
proof -
  have less: "i - 1 < length T" using assms by simp
  have a: "(T @ ext) ! i = T ! i" using assms by (simp add: nth_append)
  have b: "take i (T @ ext) = take i T" using assms by simp
  have c: "take (i - 1) (T @ ext) = take (i - 1) T" using less by simp
  have d: "(T @ ext) ! (i - 1) = T ! (i - 1)" using less by (simp add: nth_append)
  show ?thesis unfolding move_allowed_def a b c d by (rule refl)
qed

lemma move_allowed_copy:
  assumes "load_verified w b k P"
  shows "move_allowed w b (P @ CopyObject b k (replace_processed k) # rest) (length P)"
  using assms by (simp add: move_allowed_def)

lemma move_allowed_delete:
  assumes "load_verified w b k P"
    and "copy_object w (P @ [CopyObject b k (replace_processed k)]) = Inr ()"
  shows "move_allowed w b (P @ [CopyObject b k (replace_processed k), DeleteObject b k])
           (Suc (length P))"
proof -
  let ?T = "P @ [CopyObject b k (replace_processed k), DeleteObject b k]"
  have "?T ! Suc (length P) = DeleteObject b k"
    by (simp add: nth_append)
  moreover have "?T ! (Suc (length P) - 1) = CopyObject b k (replace_processed k)"
    by (simp add: nth_append)
  moreover have "take (Suc (length P)) ?T = P @ [CopyObject b k (replace_processed k)]"
    by simp
  moreover have "take (Suc (length P) - 1) ?T = P" by simp
  ultimately show ?thesis using assms unfolding move_allowed_def by simp
qed

lemma move_allowed_mid:
  assumes "\<forall>ev \<in> set mid. \<not> is_move ev" and "length tr \<le> i" and "i < length tr + length mid"
  shows "move_allowed w b (tr @ mid @ rest) i"
proof -
  have less: "i - length tr < length mid" using assms(2,3) by simp
  have "(tr @ mid @ rest) ! i = mid ! (i - length tr)"
    using assms(2) less by (simp add: nth_append)
  moreover have "mid ! (i - length tr) \<in> set mid" using less by simp
  ultimately have "\<not> is_move ((tr @ mid @ rest) ! i)" using assms(1) by simp
  then show ?thesis by (rule move_allowed_other)
qed

lemma process_file_moves:
  assumes "length tr \<le> i" and "i < length (snd (process_file w b k tr))"
  shows "move_allowed w b (snd (process_file w b k tr)) i"
proof -
  let ?T = "snd (process_file w b k tr)"
  let ?C = "CopyObject b k (replace_processed k)"
  obtain mid where nm: "\<forall>ev \<in> set mid. \<not> is_move ev" and
    shape: "(isl (fst (process_file w b k tr)) \<and> ?T = tr @ mid) \<or>
     (load_verified w b k (tr @ mid) \<and>
      (?T = tr @ mid @ [?C] \<or>
       copy_object w (tr @ mid @ [?C]) = Inr () \<and> ?T = tr @ mid @ [?C, DeleteObject b k]))"
    by (rule process_file_shape)
  from shape consider
      (plain) "?T = tr @ mid"
    | (copy) "load_verified w b k (tr @ mid)" "?T = tr @ mid @ [?C]"
    | (both) "load_verified w b k (tr @ mid)" "copy_object w (tr @ mid @ [?C]) = Inr ()"
        "?T = tr @ mid @ [?C, DeleteObject b k]"
    by blast
  then show ?thesis
  proof cases
    case plain
    then have "i < length tr + length mid" using assms(2) by simp
    from move_allowed_mid[OF nm assms(1) this, of w b "[]"] show ?thesis
      using plain by simp
  next
    case copy
    show ?thesis
    proof (cases "i < length tr + length mid")
      case True
      then show ?thesis using move_allowed_mid[OF nm assms(1) True, of w b "[?C]"] copy(2) by simp
    next
      case False
      then have "i = length (tr @ mid)" using assms(2) copy(2) by simp
      then show ?thesis using move_allowed_copy[OF copy(1), of "[]"] copy(2) by simp
    qed
  next
    case both
    show ?thesis
    proof (cases "i < length tr + length mid")
      case True
      then show ?thesis
        using move_allowed_mid[OF nm assms(1) True, of w b "[?C, DeleteObject b k]"] both(3) by simp
    next
      case False
      then consider "i = length (tr @ mid)" | "i = Suc (length (tr @ mid))"
        using assms(2) both(3) by force
      then show ?thesis
      proof cases
        case 1
        then show ?thesis
          using move_allowed_copy[OF both(1), of "[DeleteObject b k]"] both(3) by simp
      next
        case 2
        have "copy_object w ((tr @ mid) @ [?C]) = Inr ()" using both(2) by simp
        from move_allowed_delete[OF both(1) this] show ?thesis using 2 both(3) by simp
      qed
    qed
  qed
qed

lemma process_file_extends: "\<exists>ext. snd (process_file w b k tr) = tr @ ext"
  using process_file_shape[of w b k tr] by (metis append_assoc)

lemma process_files_extends: "\<exists>ext. snd (process_files w b ks tr acc) = tr @ ext"
proof (induction ks arbitrary: tr acc)
  case Nil
  then show ?case by (cases acc) simp
next
  case (Cons k ks)
  obtain ps fs where acc: "acc = (ps, fs)" by (cases acc)
  obtain res t where pf: "process_file w b k tr = (res, t)" by (metis surj_pair)
  obtain e1 where e1: "t = tr @ e1" using process_file_extends[of w b k tr] pf by auto
  obtain acc' where step: "process_files w b (k # ks) tr acc = process_files w b ks t acc'"
    using pf acc by (cases res) simp_all
  obtain e2 where "snd (process_files w b ks t acc') = t @ e2" using Cons.IH by blast
  then have "snd (process_files w b (k # ks) tr acc) = tr @ (e1 @ e2)"
    using step e1 by simp
  then show ?case by blast
qed

lemma process_files_moves:
  "length tr \<le> i \<Longrightarrow> i < length (snd (process_files w b ks tr acc)) \<Longrightarrow>
   move_allowed w b (snd (process_files w b ks tr acc)) i"
proof (induction ks arbitrary: tr acc)
  case Nil
  then show ?case by (cases acc) simp
next
  case (Cons k ks)
  obtain ps fs where acc: "acc = (ps, fs)" by (cases acc)
  obtain res t where pf: "process_file w b k tr = (res, t)" by (metis surj_pair)
  obtain e1 where e1: "t = tr @ e1" using process_file_extends[of w b k tr] pf by auto
  obtain acc' where step: "process_files w b (k # ks) tr acc = process_files w b ks t acc'"
    using pf acc by (cases res) simp_all
  obtain e2 where e2: "snd (process_files w b ks t acc') = t @ e2"
    using process_files_extends by blast
  show ?case
  proof (cases "i < length t")
    case True
    have "move_allowed w b t i"
      using process_file_moves[OF Cons.prems(1), of w b k] True pf by simp
    then show ?thesis
      unfolding step e2 using move_allowed_prefix[OF True] by simp
  next
    case False
    then have "length t \<le> i" by simp
    moreover have "i < length (snd (process_files w b ks t acc'))"
      using Cons.prems(2) step by simp
    ultimately show ?thesis unfolding step by (rule Cons.IH)
  qed
qed

text \<open>
  Claim C5. In the history of a run every delete of a file comes directly after the copy
  of that file to its completed key, and that copy was answered without exception; every
  copy, and so every delete, is made at a history at which the load of that file returned
  verified, with a row count that is not 0. The processing of a file that fails with a
  last call which is no copy and no delete, that is before the verification has
  succeeded, adds no copy and no delete to the history: the file stays where it is.
\<close>

theorem relocation_after_verification:
  "(\<forall>r rs i. event = Some (r # rs) \<and> i < length (snd (lambda_handler event env w)) \<longrightarrow>
      move_allowed w (bucket_name r) (snd (lambda_handler event env w)) i) \<and>
   (\<forall>e T. process_file w bucket key tr = (Inl e, T) \<and> \<not> is_move (last T) \<longrightarrow>
      (\<forall>ev \<in> set (drop (length tr) T). \<not> is_move ev))"
proof (rule conjI)
  show "\<forall>r rs i. event = Some (r # rs) \<and> i < length (snd (lambda_handler event env w)) \<longrightarrow>
      move_allowed w (bucket_name r) (snd (lambda_handler event env w)) i"
  proof (intro allI impI, elim conjE)
    fix r rs i
    assume ev: "event = Some (r # rs)" and i: "i < length (snd (lambda_handler event env w))"
    have T: "snd (lambda_handler event env w) =
        snd (process_files w (bucket_name r) (wait_for_file_processing env 300) [] ([], []))"
      using ev by (simp add: lambda_handler_def split: prod.splits)
    show "move_allowed w (bucket_name r) (snd (lambda_handler event env w)) i"
      using i unfolding T by (intro process_files_moves) simp_all
  qed
next
  show "\<forall>e T. process_file w bucket key tr = (Inl e, T) \<and> \<not> is_move (last T) \<longrightarrow>
      (\<forall>ev \<in> set (drop (length tr) T). \<not> is_move ev)"
  proof (intro allI impI, elim conjE)
    fix e T
    assume pf: "process_file w bucket key tr = (Inl e, T)" and last: "\<not> is_move (last T)"
    let ?C = "CopyObject bucket key (replace_processed key)"
    obtain mid where nm: "\<forall>ev \<in> set mid. \<not> is_move ev" and
      shape: "(isl (fst (process_file w bucket key tr)) \<and>
                snd (process_file w bucket key tr) = tr @ mid) \<or>
       (load_verified w bucket key (tr @ mid) \<and>
        (snd (process_file w bucket key tr) = tr @ mid @ [?C] \<or>
         copy_object w (tr @ mid @ [?C]) = Inr () \<and>
         snd (process_file w bucket key tr) = tr @ mid @ [?C, DeleteObject bucket key]))"
      by (rule process_file_shape)
    have "T \<noteq> tr @ mid @ [?C]" using last by auto
    moreover have "T \<noteq> tr @ mid @ [?C, DeleteObject bucket key]" using last by auto
    ultimately have "T = tr @ mid" using shape pf by auto
    then show "\<forall>ev \<in> set (drop (length tr) T). \<not> is_move ev" using nm by simp
  qed
qed

section \<open>Verification and the existence check: proofs\<close>

lemma load_and_move_extends: "\<exists>ext. snd (load_and_move w b k tr) = tr @ ext"
  using load_and_move_shape[of w b k tr] by (metis append_assoc)

lemma process_files_failed_step:
  assumes pf: "fst (process_file w b k tr) = Inl e"
    and run: "process_files w b (k # ks) tr (ps, fs) = ((ps', fs'), T)"
  shows "(k, e) \<in> set fs' \<and> (k \<notin> set ps \<and> k \<notin> set ks \<longrightarrow> k \<notin> set ps')"
proof -
  obtain t where t: "process_file w b k tr = (Inl e, t)" using pf by (metis prod.collapse)
  then have "process_files w b ks t (ps, fs @ [(k, e)]) = ((ps', fs'), T)" using run by simp
  from process_files_lists[OF this] obtain ps2 fs2 where
    l: "ps' = ps @ ps2" "fs' = (fs @ [(k, e)]) @ fs2" "mset ps2 + mset (map fst fs2) = mset ks"
    by blast
  have "set_mset (mset ps2) \<subseteq> set_mset (mset ks)" using l(3) by (metis mset_subset_eq_add_left set_mset_mono)
  then have "set ps2 \<subseteq> set ks" by simp
  then show ?thesis using l(1,2) by auto
qed

text \<open>
  Claim C3. When the \<^verbatim>\<open>COPY\<close> statement of a file is \<^verbatim>\<open>FINISHED\<close> within the budget
  of polls and the row-count query, \<^verbatim>\<open>FINISHED\<close> as well, answers 0, the load raises
  \<open>NoDataLoaded\<close>; so does the processing of the file, and the loop appends the file to
  the failure list with that exception and not to the success list.
\<close>

theorem zero_row_count_fails:
  assumes fetch: "get_object w (tr0 @ [GetObject bucket key]) = Inr content"
    and parse: "read_csv w content = Inr df"
    and table: "ensure_table w (table_name_of key) df (tr0 @ [GetObject bucket key]) = (Inr (), tr)"
    and copy: "execute_statement w (tr @ [ExecuteStatement (CopyCommand (table_name_of key) bucket key)]) =
                 Inr copy_id"
    and copy_polls: "i < max_retries"
      "\<forall>j<i. still_running w copy_id (tr @ [ExecuteStatement (CopyCommand (table_name_of key) bucket key)]) j"
    and copy_finished:
      "status_is w copy_id (tr @ [ExecuteStatement (CopyCommand (table_name_of key) bucket key)]) i FINISHED"
    and tr1: "tr1 = (tr @ [ExecuteStatement (CopyCommand (table_name_of key) bucket key)]) @
                    replicate (Suc i) (DescribeStatement copy_id)"
    and verify: "execute_statement w (tr1 @ [ExecuteStatement (CountRows (table_name_of key))]) = Inr verify_id"
    and count_polls: "n < max_retries"
      "\<forall>j<n. still_running w verify_id (tr1 @ [ExecuteStatement (CountRows (table_name_of key))]) j"
    and count_finished:
      "status_is w verify_id (tr1 @ [ExecuteStatement (CountRows (table_name_of key))]) n FINISHED"
    and count_zero:
      "fetch_at w verify_id (tr1 @ [ExecuteStatement (CountRows (table_name_of key))]) n =
         Inr ((LongValue 0 # others) # rows)"
  shows "fst (load_data_to_redshift w (table_name_of key) bucket key tr) =
           Inl (NoDataLoaded (table_name_of key)) \<and>
         fst (process_file w bucket key tr0) = Inl (NoDataLoaded (table_name_of key)) \<and>
         (\<forall>keys ps fs ps' fs' T.
            process_files w bucket (key # keys) tr0 (ps, fs) = ((ps', fs'), T) \<longrightarrow>
            (key, NoDataLoaded (table_name_of key)) \<in> set fs' \<and>
            (key \<notin> set ps \<and> key \<notin> set keys \<longrightarrow> key \<notin> set ps'))"
proof -
  let ?t = "table_name_of key"
  have w1: "wait_for_query_completion w copy_id False
              (tr @ [ExecuteStatement (CopyCommand ?t bucket key)]) = (Inr None, tr1)"
    unfolding tr1 by (rule wait_finished_run(1)[OF copy_polls(2) copy_finished copy_polls(1)])
  have w2: "wait_for_query_completion w verify_id True (tr1 @ [ExecuteStatement (CountRows ?t)]) =
      (Inr (Some ((LongValue 0 # others) # rows)),
       (tr1 @ [ExecuteStatement (CountRows ?t)]) @ replicate (Suc n) (DescribeStatement verify_id) @
         [GetStatementResult verify_id])"
    by (rule wait_finished_run(2)[OF count_polls(2) count_finished count_polls(1) count_zero])
  have v: "fst (verify_row_count w ?t tr1) = Inl (NoDataLoaded ?t)"
    unfolding verify_row_count_def using verify w2 by simp
  have l: "fst (load_data_to_redshift w ?t bucket key tr) = Inl (NoDataLoaded ?t)"
    unfolding load_data_to_redshift_def using copy w1 v by simp
  then have "fst (load_and_move w bucket key tr) = Inl (NoDataLoaded ?t)"
    by (cases "load_data_to_redshift w ?t bucket key tr") (simp add: load_and_move_def)
  then have p: "fst (process_file w bucket key tr0) = Inl (NoDataLoaded ?t)"
    unfolding process_file_def using fetch parse table by simp
  show ?thesis using l p process_files_failed_step[OF p] by blast
qed

text \<open>
  Claim C10, as amended. When the body of \<^verbatim>\<open>check_table_exists\<close> raises, whatever the
  exception, the function answers \<^verbatim>\<open>False\<close> and the outcome of the file is that of
  \<^verbatim>\<open>create_table\<close> and of the steps that follow; when the environment variables
  \<^verbatim>\<open>REDSHIFT_DATABASE\<close> and \<^verbatim>\<open>REDSHIFT_WORKGROUP\<close> are set, the next call of the run
  is the \<^verbatim>\<open>CREATE TABLE IF NOT EXISTS\<close> statement for the table of the file.
\<close>

theorem failed_check_still_creates:
  assumes fetch: "get_object w (tr0 @ [GetObject bucket key]) = Inr content"
    and parse: "read_csv w content = Inr df"
    and fails: "check_table_exists_body w (table_name_of key) (tr0 @ [GetObject bucket key]) = (Inl e, tr1)"
  shows "check_table_exists w (table_name_of key) (tr0 @ [GetObject bucket key]) = (False, tr1) \<and>
         process_file w bucket key tr0 =
           (case create_table w (table_name_of key) df tr1 of
              (Inl e', t) \<Rightarrow> (Inl e', t)
            | (Inr u, t) \<Rightarrow> load_and_move w bucket key t) \<and>
         (environ w ''REDSHIFT_DATABASE'' \<noteq> None \<and> environ w ''REDSHIFT_WORKGROUP'' \<noteq> None \<longrightarrow>
            (\<exists>rest. snd (process_file w bucket key tr0) =
               tr1 @ ExecuteStatement (CreateTableIfNotExists (table_name_of key) (column_definitions df)) # rest))"
proof -
  let ?t = "table_name_of key"
  let ?q = "ExecuteStatement (CreateTableIfNotExists ?t (column_definitions df))"
  have c: "check_table_exists w ?t (tr0 @ [GetObject bucket key]) = (False, tr1)"
    using fails by (simp add: check_table_exists_def)
  then have en: "ensure_table w ?t df (tr0 @ [GetObject bucket key]) = create_table w ?t df tr1"
    by (simp add: ensure_table_def)
  have pf: "process_file w bucket key tr0 =
      (case create_table w ?t df tr1 of
         (Inl e', t) \<Rightarrow> (Inl e', t)
       | (Inr u, t) \<Rightarrow> load_and_move w bucket key t)"
    unfolding process_file_def using fetch parse en by simp
  have issued: "\<exists>rest. snd (process_file w bucket key tr0) = tr1 @ ?q # rest"
    if set: "environ w ''REDSHIFT_DATABASE'' \<noteq> None \<and> environ w ''REDSHIFT_WORKGROUP'' \<noteq> None"
  proof -
    obtain target where "redshift_target w = Inr target"
      using set by (auto simp add: redshift_target_def)
    then have cr: "create_table w ?t df tr1 = run_create_table w ?t df tr1"
      by (simp add: create_table_def)
    obtain res t where ct: "create_table w ?t df tr1 = (res, t)" by (metis surj_pair)
    obtain ext where ext: "t = tr1 @ ?q # ext"
      using run_create_table_trace[of w ?t df tr1] ct cr by (metis snd_conv)
    show ?thesis
    proof (cases res)
      case (Inl e')
      then show ?thesis using pf ct ext by simp
    next
      case (Inr u)
      obtain e2 where "snd (load_and_move w bucket key t) = t @ e2"
        using load_and_move_extends by blast
      then have "snd (process_file w bucket key tr0) = tr1 @ ?q # (ext @ e2)"
        using pf ct Inr ext by simp
      then show ?thesis by blast
    qed
  qed
  show ?thesis using c pf issued by blast
qed

lemma ensure_sales_absent:
  "ensure_table (world_fetching (Inr [[LongValue 0]])) (table_name_of ''processed/sales.csv'') sample_df
     ([] @ [GetObject ''bucket'' ''processed/sales.csv'']) =
   (Inr (),
    [GetObject ''bucket'' ''processed/sales.csv'',
     ExecuteStatement (TableExistsQuery ''sales''),
     DescribeStatement ''stmt'', GetStatementResult ''stmt'',
     ExecuteStatement (CreateTableIfNotExists ''sales'' (column_definitions sample_df)),
     DescribeStatement ''stmt''])"
  by (simp add: world_fetching_calls)

theorem zero_row_count_fails_witness:
  "status_is (world_fetching (Inr [[LongValue 0]])) ''stmt''
     ([GetObject ''bucket'' ''processed/sales.csv'',
       ExecuteStatement (TableExistsQuery ''sales''),
       DescribeStatement ''stmt'', GetStatementResult ''stmt'',
       ExecuteStatement (CreateTableIfNotExists ''sales'' (column_definitions sample_df)),
       DescribeStatement ''stmt''] @
      [ExecuteStatement (CopyCommand (table_name_of ''processed/sales.csv'') ''bucket''
         ''processed/sales.csv'')]) 0 FINISHED \<and>
   fst (process_file (world_fetching (Inr [[LongValue 0]])) ''bucket'' ''processed/sales.csv'' []) =
     Inl (NoDataLoaded (table_name_of ''processed/sales.csv'')) \<and>
   (''processed/sales.csv'', NoDataLoaded (table_name_of ''processed/sales.csv'')) \<in>
     set (snd (fst (process_files (world_fetching (Inr [[LongValue 0]])) ''bucket''
                      [''processed/sales.csv''] [] ([], [])))) \<and>
   ''processed/sales.csv'' \<notin>
     set (fst (fst (process_files (world_fetching (Inr [[LongValue 0]])) ''bucket''
                      [''processed/sales.csv''] [] ([], []))))"
proof -
  let ?w = "world_fetching (Inr [[LongValue 0]])"
  let ?k = "''processed/sales.csv''"
  let ?tr = "[GetObject ''bucket'' ?k,
     ExecuteStatement (TableExistsQuery ''sales''),
     DescribeStatement ''stmt'', GetStatementResult ''stmt'',
     ExecuteStatement (CreateTableIfNotExists ''sales'' (column_definitions sample_df)),
     DescribeStatement ''stmt'']"
  let ?c = "ExecuteStatement (CopyCommand (table_name_of ?k) ''bucket'' ?k)"
  let ?tr1 = "(?tr @ [?c]) @ replicate (Suc 0) (DescribeStatement ''stmt'')"
  let ?v = "ExecuteStatement (CountRows (table_name_of ?k))"
  have h1: "get_object ?w ([] @ [GetObject ''bucket'' ?k]) = Inr ''id,Total''"
    by (rule world_fetching_fields)
  have h2: "read_csv ?w ''id,Total'' = Inr sample_df" by (rule world_fetching_fields)
  have h4: "execute_statement ?w (?tr @ [?c]) = Inr ''stmt''" by (rule world_fetching_fields)
  have h5: "\<forall>j<0. still_running ?w ''stmt'' (?tr @ [?c]) j" by simp
  have h6: "status_is ?w ''stmt'' (?tr @ [?c]) 0 FINISHED" by (rule world_fetching_finished)
  have h7: "execute_statement ?w (?tr1 @ [?v]) = Inr ''stmt''" by (rule world_fetching_fields)
  have h8: "\<forall>j<0. still_running ?w ''stmt'' (?tr1 @ [?v]) j" by simp
  have h9: "status_is ?w ''stmt'' (?tr1 @ [?v]) 0 FINISHED" by (rule world_fetching_finished)
  have h10: "fetch_at ?w ''stmt'' (?tr1 @ [?v]) 0 = Inr ((LongValue 0 # []) # [])"
    by (rule world_fetching_fetch)
  note inst = zero_row_count_fails[OF h1 h2 ensure_sales_absent h4 max_retries_pos h5 h6 refl
      h7 max_retries_pos h8 h9 h10]
  have a: "fst (process_file ?w ''bucket'' ?k []) = Inl (NoDataLoaded (table_name_of ?k))"
    by (rule conjunct1[OF conjunct2[OF inst]])
  obtain ps' fs' T where run: "process_files ?w ''bucket'' [?k] [] ([], []) = ((ps', fs'), T)"
    by (metis surj_pair)
  from conjunct2[OF conjunct2[OF inst], rule_format, OF this]
  have "(?k, NoDataLoaded (table_name_of ?k)) \<in> set fs' \<and> ?k \<notin> set ps'"
    by simp
  then have b: "(?k, NoDataLoaded (table_name_of ?k)) \<in>
        set (snd (fst (process_files ?w ''bucket'' [?k] [] ([], []))))"
    and c: "?k \<notin> set (fst (fst (process_files ?w ''bucket'' [?k] [] ([], []))))"
    unfolding run by simp_all
  show ?thesis by (intro conjI) (rule h6, rule a, rule b, rule c)
qed

lemma check_sales_fails:
  "check_table_exists_body (world_fetching (Inl (OtherException ''InternalServerException'')))
     (table_name_of ''processed/sales.csv'') ([] @ [GetObject ''bucket'' ''processed/sales.csv'']) =
   (Inl (OtherException ''InternalServerException''),
    [GetObject ''bucket'' ''processed/sales.csv'',
     ExecuteStatement (TableExistsQuery ''sales''),
     DescribeStatement ''stmt'', GetStatementResult ''stmt''])"
  by (simp add: world_fetching_calls)

theorem failed_check_still_creates_witness:
  "environ (world_fetching (Inl (OtherException ''InternalServerException''))) ''REDSHIFT_DATABASE'' =
     Some ''configured'' \<and>
   environ (world_fetching (Inl (OtherException ''InternalServerException''))) ''REDSHIFT_WORKGROUP'' =
     Some ''configured'' \<and>
   fst (check_table_exists_body (world_fetching (Inl (OtherException ''InternalServerException'')))
     (table_name_of ''processed/sales.csv'') ([] @ [GetObject ''bucket'' ''processed/sales.csv''])) =
     Inl (OtherException ''InternalServerException'') \<and>
   fst (check_table_exists (world_fetching (Inl (OtherException ''InternalServerException'')))
     (table_name_of ''processed/sales.csv'') ([] @ [GetObject ''bucket'' ''processed/sales.csv''])) =
     False \<and>
   (\<exists>rest. snd (process_file (world_fetching (Inl (OtherException ''InternalServerException'')))
                  ''bucket'' ''processed/sales.csv'' []) =
      [GetObject ''bucket'' ''processed/sales.csv'',
       ExecuteStatement (TableExistsQuery ''sales''),
       DescribeStatement ''stmt'', GetStatementResult ''stmt''] @
      ExecuteStatement (CreateTableIfNotExists (table_name_of ''processed/sales.csv'')
        (column_definitions sample_df)) # rest)"
proof -
  let ?w = "world_fetching (Inl (OtherException ''InternalServerException''))"
  let ?k = "''processed/sales.csv''"
  have h1: "get_object ?w ([] @ [GetObject ''bucket'' ?k]) = Inr ''id,Total''"
    by (rule world_fetching_fields)
  have h2: "read_csv ?w ''id,Total'' = Inr sample_df" by (rule world_fetching_fields)
  have d: "environ ?w ''REDSHIFT_DATABASE'' = Some ''configured''"
    and g: "environ ?w ''REDSHIFT_WORKGROUP'' = Some ''configured''"
    by (simp_all add: world_fetching_def)
  have env: "environ ?w ''REDSHIFT_DATABASE'' \<noteq> None \<and> environ ?w ''REDSHIFT_WORKGROUP'' \<noteq> None"
    unfolding d g by simp
  note inst = failed_check_still_creates[OF h1 h2 check_sales_fails]
  have a: "fst (check_table_exists_body ?w (table_name_of ?k) ([] @ [GetObject ''bucket'' ?k])) =
      Inl (OtherException ''InternalServerException'')"
    by (simp only: check_sales_fails fst_conv)
  have b: "fst (check_table_exists ?w (table_name_of ?k) ([] @ [GetObject ''bucket'' ?k])) = False"
    by (simp only: conjunct1[OF inst] fst_conv)
  show ?thesis
    by (intro conjI) (rule d, rule g, rule a, rule b, rule mp[OF conjunct2[OF conjunct2[OF inst]] env])
qed

lemma world_unconfigured_fields:
  "redshift_target world_unconfigured = Inl KeyError"
  "get_object world_unconfigured tr = Inr ''id,Total''"
  "read_csv world_unconfigured content = Inr sample_df"
  by (simp_all add: world_unconfigured_def world_fetching_def redshift_target_def)

text \<open>
  Claim C10 as stated fails: with the environment variables unset, the check raises
  \<^verbatim>\<open>KeyError\<close> before its query is issued and answers \<^verbatim>\<open>False\<close>; \<^verbatim>\<open>create_table\<close> then
  raises the same \<^verbatim>\<open>KeyError\<close> before any statement is issued. The history of the file
  holds the fetch of the object and nothing else, and the file fails with that error.
\<close>

theorem failed_check_no_statement_counterexample:
  "check_table_exists_body world_unconfigured (table_name_of ''processed/sales.csv'')
     [GetObject ''bucket'' ''processed/sales.csv''] =
     (Inl KeyError, [GetObject ''bucket'' ''processed/sales.csv'']) \<and>
   check_table_exists world_unconfigured (table_name_of ''processed/sales.csv'')
     [GetObject ''bucket'' ''processed/sales.csv''] =
     (False, [GetObject ''bucket'' ''processed/sales.csv'']) \<and>
   process_file world_unconfigured ''bucket'' ''processed/sales.csv'' [] =
     (Inl KeyError, [GetObject ''bucket'' ''processed/sales.csv''])"
  by (simp add: world_unconfigured_fields check_table_exists_body_def check_table_exists_def
      create_table_def ensure_table_def process_file_def)

lemma run_sales_loaded:
  "snd (lambda_handler (Some [\<lparr>bucket_name = ''bucket'', object_key = ''raw/sales.xlsx''\<rparr>]) steady
          (world_fetching (Inr [[LongValue 3]]))) =
     [GetObject ''bucket'' ''processed/sales.csv'',
      ExecuteStatement (TableExistsQuery ''sales''),
      DescribeStatement ''stmt'', GetStatementResult ''stmt'',
      ExecuteStatement (CopyCommand ''sales'' ''bucket'' ''processed/sales.csv''),
      DescribeStatement ''stmt'',
      ExecuteStatement (CountRows ''sales''),
      DescribeStatement ''stmt'', GetStatementResult ''stmt'',
      CopyObject ''bucket'' ''processed/sales.csv'' ''completed/sales.csv'',
      DeleteObject ''bucket'' ''processed/sales.csv'']"
  by (simp add: lambda_handler_def steady_batch process_sales_loaded)

theorem relocation_after_verification_witness:
  "10 < length (snd (lambda_handler (Some [\<lparr>bucket_name = ''bucket'', object_key = ''raw/sales.xlsx''\<rparr>])
                      steady (world_fetching (Inr [[LongValue 3]])))) \<and>
   snd (lambda_handler (Some [\<lparr>bucket_name = ''bucket'', object_key = ''raw/sales.xlsx''\<rparr>])
          steady (world_fetching (Inr [[LongValue 3]]))) ! 10 =
     DeleteObject ''bucket'' ''processed/sales.csv'' \<and>
   move_allowed (world_fetching (Inr [[LongValue 3]])) ''bucket''
     (snd (lambda_handler (Some [\<lparr>bucket_name = ''bucket'', object_key = ''raw/sales.xlsx''\<rparr>])
            steady (world_fetching (Inr [[LongValue 3]])))) 10 \<and>
   fst (process_file (world_fetching (Inr [[LongValue 0]])) ''bucket'' ''processed/sales.csv'' []) =
     Inl (NoDataLoaded ''sales'') \<and>
   \<not> is_move (last (snd (process_file (world_fetching (Inr [[LongValue 0]])) ''bucket''
                          ''processed/sales.csv'' []))) \<and>
   filter is_move (drop (length ([] :: event list))
     (snd (process_file (world_fetching (Inr [[LongValue 0]])) ''bucket'' ''processed/sales.csv'' []))) =
     []"
proof -
  let ?r = "\<lparr>bucket_name = ''bucket'', object_key = ''raw/sales.xlsx''\<rparr>"
  let ?w = "world_fetching (Inr [[LongValue 3]])"
  let ?empty = "world_fetching (Inr [[LongValue 0]])"
  let ?k = "''processed/sales.csv''"
  let ?T = "snd (lambda_handler (Some [?r]) steady ?w)"
  have len: "10 < length ?T" by (simp add: run_sales_loaded)
  have del: "?T ! 10 = DeleteObject ''bucket'' ?k" by (simp add: run_sales_loaded)
  have "move_allowed ?w (bucket_name ?r) ?T 10"
    by (rule conjunct1[OF relocation_after_verification[of "Some [?r]" steady ?w], rule_format,
          OF conjI[OF refl len]])
  then have mv: "move_allowed ?w ''bucket'' ?T 10" by simp
  obtain T0 where pf: "process_file ?empty ''bucket'' ?k [] = (Inl (NoDataLoaded ''sales''), T0)"
    and nl: "\<not> is_move (last T0)"
    using process_sales_empty by simp
  have un: "\<forall>ev \<in> set (drop (length ([] :: event list)) T0). \<not> is_move ev"
    by (rule conjunct2[OF relocation_after_verification[of _ _ ?empty "''bucket''" ?k "[]"],
          THEN spec, THEN spec, THEN mp, OF conjI[OF pf nl]])
  have f: "fst (process_file ?empty ''bucket'' ?k []) = Inl (NoDataLoaded ''sales'')"
    using pf by simp
  have nl': "\<not> is_move (last (snd (process_file ?empty ''bucket'' ?k [])))" using pf nl by simp
  have un': "filter is_move (drop (length ([] :: event list))
      (snd (process_file ?empty ''bucket'' ?k []))) = []"
    unfolding pf snd_conv using un by (simp only: filter_empty_conv)
  show ?thesis by (intro conjI) (rule len, rule del, rule mv, rule f, rule nl', rule un')
qed

end
